theory Spec2Isabelle
  imports
    Main
    "HOL-Library.AList"
    "HOL-Library.Multiset"
    "HOL-Library.Char_ord"
    "HOL-Library.List_Lexorder"
begin

section \<open>Keys, Go maps and the order of \<open>range\<close>\<close>

text \<open>
  Package \<open>dag\<close> (pkg/dag/dag.go, the version with \<open>type Key interface { Less(r Key) bool }\<close>).
  A key is a value of a type \<open>'k\<close> of class \<open>linorder\<close>: \<open>a.Less(b)\<close> is \<open>a < b\<close>, and keys
  are compared for equality when they index a map. For package \<open>strdag\<close> the key type is
  \<open>string\<close> with the byte-wise lexicographic order.

  A Go \<open>map[Key]V\<close> is held as an association list. What the list denotes is its
  \<open>map_of\<close>; \<open>keys_of\<close> lists every key once. A \<open>map[Key]bool\<close> of the program only ever
  stores \<open>true\<close>, so it is a finite set of keys, held as a list and read through \<open>set\<close>.

  Go leaves the order in which \<open>range\<close> visits a map open. Wherever that order can be
  seen in a result, the model asks a parameter \<open>rng\<close> for it: \<open>rng c ks\<close> is the order in
  which the keys \<open>ks\<close> of the map named by \<open>c\<close> are visited (\<open>None\<close>: the local map
  \<open>outputs\<close>; \<open>Some k\<close>: the inner map \<open>outputs[k]\<close>). An answer that is not a rearrangement
  of \<open>ks\<close> is ignored, so every \<open>rng\<close> stands for a possible run and nothing has to be assumed
  about it.
\<close>

definition keys_of :: "('k \<times> 'v) list \<Rightarrow> 'k list" where
  "keys_of m = remdups (map fst m)"

definition bucket :: "('k \<times> 'k list) list \<Rightarrow> 'k \<Rightarrow> 'k list" where
  \<comment> \<open>\<open>outputs[k]\<close>; a missing key reads as the nil map\<close>
  "bucket outs k = (case map_of outs k of None \<Rightarrow> [] | Some xs \<Rightarrow> xs)"

definition count_of :: "('k \<times> int) list \<Rightarrow> 'k \<Rightarrow> int" where
  \<comment> \<open>\<open>numInputs[k]\<close>; a missing key reads as 0\<close>
  "count_of ni k = (case map_of ni k of None \<Rightarrow> 0 | Some v \<Rightarrow> v)"

definition range_order ::
  "('k::linorder option \<Rightarrow> 'k list \<Rightarrow> 'k list) \<Rightarrow> 'k option \<Rightarrow> 'k list \<Rightarrow> 'k list" where
  "range_order rng c ks = (if sort (rng c ks) = sort ks then rng c ks else ks)"

definition delete_edge :: "'k \<Rightarrow> 'k \<Rightarrow> ('k \<times> 'k list) list \<Rightarrow> ('k \<times> 'k list) list" where
  \<comment> \<open>\<open>delete(outputs[from], to)\<close>; deleting from a nil map does nothing\<close>
  "delete_edge frm to outs =
     (case map_of outs frm of None \<Rightarrow> outs
      | Some xs \<Rightarrow> AList.update frm (removeAll to xs) outs)"

section \<open>The graph store\<close>

record 'k DAG =
  cap :: nat
  initNodes :: "'k list"
  nodes :: "'k list"
  outputs :: "('k \<times> 'k list) list"
  labels :: "('k \<times> string list) list"
  numInputs :: "('k \<times> int) list"

datatype 'k DAGOption = Capacity nat | Nodes "'k list"

fun apply_option :: "'k DAGOption \<Rightarrow> 'k DAG \<Rightarrow> 'k DAG" where
  "apply_option (Capacity n) g = g\<lparr>cap := n\<rparr>"
| "apply_option (Nodes ns) g = g\<lparr>initNodes := ns\<rparr>"

definition AddNode :: "'k \<Rightarrow> 'k DAG \<Rightarrow> bool \<times> 'k DAG" where
  "AddNode key g =
     (if map_of (numInputs g) key \<noteq> None then (False, g)
      else
        let g1 = g\<lparr>nodes := nodes g @ [key]\<rparr>;
            g2 = (if map_of (outputs g1) key = None
                  then g1\<lparr>outputs := AList.update key [] (outputs g1)\<rparr> else g1);
            g3 = (if map_of (numInputs g2) key \<noteq> None
                  then g2\<lparr>numInputs := AList.update key 0 (numInputs g2)\<rparr> else g2)
        in (True, g3))"

fun AddNodes :: "'k list \<Rightarrow> 'k DAG \<Rightarrow> bool \<times> 'k DAG" where
  "AddNodes [] g = (True, g)"
| "AddNodes (name # names) g =
     (case AddNode name g of
        (False, g') \<Rightarrow> (False, g')
      | (True, g') \<Rightarrow> AddNodes names g')"

definition New :: "'k DAGOption list \<Rightarrow> 'k DAG" where
  "New opt =
     (let g = fold apply_option opt
                \<lparr>cap = 0, initNodes = [], nodes = [], outputs = [], labels = [], numInputs = []\<rparr>
      in snd (AddNodes (initNodes g) g))"

definition AddEdge :: "'k \<Rightarrow> 'k \<Rightarrow> 'k DAG \<Rightarrow> bool \<times> 'k DAG" where
  "AddEdge frm to g =
     (let g1 = (if map_of (outputs g) frm = None
                then g\<lparr>outputs := AList.update frm [] (outputs g)\<rparr> else g);
          g2 = g1\<lparr>outputs := AList.update frm (List.insert to (bucket (outputs g1) frm)) (outputs g1)\<rparr>;
          g3 = g2\<lparr>numInputs := AList.update to (count_of (numInputs g2) to + 1) (numInputs g2)\<rparr>
      in (True, g3))"

fun AddDependency :: "'k \<Rightarrow> 'k list \<Rightarrow> 'k DAG \<Rightarrow> bool \<times> 'k DAG" where
  "AddDependency sub [] g = (True, g)"
| "AddDependency sub (d # dependencies) g =
     (case AddEdge d sub g of
        (False, g') \<Rightarrow> (False, g')
      | (True, g') \<Rightarrow> AddDependency sub dependencies g')"

definition AddDependencies :: "'k \<Rightarrow> 'k list \<Rightarrow> 'k DAG \<Rightarrow> bool \<times> 'k DAG" where
  "AddDependencies sub dependencies g = AddDependency sub dependencies g"

fun AddLabel :: "'k \<Rightarrow> string list \<Rightarrow> 'k DAG \<Rightarrow> 'k DAG" where
  "AddLabel sub [] g = g"
| "AddLabel sub (d # ls) g =
     (let m = (case map_of (labels g) sub of None \<Rightarrow> [] | Some m \<Rightarrow> m)
      in AddLabel sub ls (g\<lparr>labels := AList.update sub (List.insert d m) (labels g)\<rparr>))"

definition AddLabels :: "'k \<Rightarrow> string list \<Rightarrow> 'k DAG \<Rightarrow> 'k DAG" where
  "AddLabels sub ls g = AddLabel sub ls g"

record 'k AddOpts =
  deps :: "'k list"
  labels_o :: "string list"

datatype 'k AddOption = Dependencies "'k list" | Labels "string list"

fun apply_add_option :: "'k AddOption \<Rightarrow> 'k AddOpts \<Rightarrow> 'k AddOpts" where
  "apply_add_option (Dependencies ds) ao = ao\<lparr>deps := ds\<rparr>"
| "apply_add_option (Labels ls) ao = ao\<lparr>labels_o := ls\<rparr>"

definition Add :: "'k \<Rightarrow> 'k AddOption list \<Rightarrow> 'k DAG \<Rightarrow> bool \<times> 'k DAG" where
  "Add node opt g =
     (let opts = fold apply_add_option opt \<lparr>deps = [], labels_o = []\<rparr>;
          g1 = snd (AddNode node g);
          (r, g2) = AddDependencies node (deps opts) g1
      in (r, AddLabels node (labels_o opts) g2))"

definition unsafeRemoveEdge :: "'k \<Rightarrow> 'k \<Rightarrow> 'k DAG \<Rightarrow> 'k DAG" where
  "unsafeRemoveEdge frm to g =
     g\<lparr>outputs := delete_edge frm to (outputs g),
       numInputs := AList.update to (count_of (numInputs g) to - 1) (numInputs g)\<rparr>"

definition RemoveEdge :: "'k \<Rightarrow> 'k \<Rightarrow> 'k DAG \<Rightarrow> bool \<times> 'k DAG" where
  "RemoveEdge frm to g =
     (if map_of (outputs g) frm = None then (False, g)
      else (True, unsafeRemoveEdge frm to g))"

text \<open>
  The counters are Go \<open>int\<close>s (64 bits); they are modelled as unbounded integers, which
  differs only after more than \<open>2^63\<close> calls of \<open>AddEdge\<close> or \<open>RemoveEdge\<close>.
\<close>

section \<open>Results of a sort\<close>

record 'k NodeInfo =
  NodeId :: 'k
  ParentIds :: "'k list"
  ChildIds :: "'k list"

type_synonym 'k Topology = "'k NodeInfo list list"

datatype 'k Error =
    CycleError "'k list"
  | UndefinedDependencyError 'k "'k list"
  | UnhandledDependencyError "('k \<times> 'k list) list"

datatype panic = NilPointer | InvalidState | IndexOutOfRange

text \<open>
  What a call of \<open>Sort\<close> does: it returns the pair (Topology, error), where a \<open>nil\<close>
  Topology is \<open>None\<close> and a \<open>nil\<close> error is \<open>None\<close>, or it panics.
\<close>

datatype 'k outcome =
    Returns "'k Topology option" "'k Error option"
  | Panics panic

record 'k SortOptions =
  so_Only :: "'k list"
  so_WithDependencies :: bool
  so_WithoutDependencies :: bool

datatype 'k SortOption =
    Only "'k list"
  | WithDependencies
  | WithoutDependencies
  | Options "'k SortOptions"

fun ApplySortOptions :: "'k SortOption \<Rightarrow> 'k SortOptions \<Rightarrow> 'k SortOptions" where
  "ApplySortOptions (Only ns) so = so\<lparr>so_Only := so_Only so @ ns\<rparr>"
| "ApplySortOptions WithDependencies so = so\<lparr>so_WithDependencies := True\<rparr>"
| "ApplySortOptions WithoutDependencies so = so\<lparr>so_WithoutDependencies := True\<rparr>"
| "ApplySortOptions (Options so') so = so'"

section \<open>Sort: the working state\<close>

text \<open>
  \<open>Sort\<close> works on local copies of \<open>numInputs\<close> and \<open>outputs\<close>. Every \<open>*NodeInfo\<close> it
  allocates is an index into the list \<open>infos\<close>; \<open>nodes_w\<close> is the local map \<open>nodes\<close> from
  keys to these pointers, \<open>current\<close>, \<open>next_w\<close> and \<open>sortedSets\<close> hold pointers. The map
  \<open>sortedSets\<close> only ever gains the key \<open>depth\<close> when \<open>depth\<close> is its size, so it is held as
  the list of its values.
\<close>

record 'k work =
  numInputs_w :: "('k \<times> int) list"
  outputs_w :: "('k \<times> 'k list) list"
  infos :: "'k NodeInfo list"
  nodes_w :: "'k \<Rightarrow> nat option"
  current :: "nat list"
  next_w :: "nat list"
  depth :: nat
  sortedSets :: "nat list list"

definition register_node :: "'k \<Rightarrow> 'k work \<Rightarrow> 'k work" where
  \<comment> \<open>one round of \<open>for _, n := range g.nodes\<close>\<close>
  "register_node n w =
     (let p = length (infos w);
          w1 = w\<lparr>infos := infos w @ [\<lparr>NodeId = n, ParentIds = [], ChildIds = []\<rparr>],
                 nodes_w := (nodes_w w)(n \<mapsto> p)\<rparr>
      in if count_of (numInputs_w w1) n = 0 then w1\<lparr>current := current w1 @ [p]\<rparr> else w1)"

definition init_work :: "'k DAG \<Rightarrow> 'k work" where
  "init_work g =
     fold register_node (nodes g)
       \<lparr>numInputs_w = numInputs g, outputs_w = outputs g, infos = [], nodes_w = Map.empty,
        current = [], next_w = [], depth = 0, sortedSets = []\<rparr>"

definition push_level :: "nat \<Rightarrow> nat \<Rightarrow> nat list list \<Rightarrow> nat list list" where
  \<comment> \<open>\<open>sortedSets[depth] = append(sortedSets[depth], n)\<close>\<close>
  "push_level d p ss = (if d < length ss then ss[d := ss ! d @ [p]] else ss @ [[p]])"

definition visit :: "nat \<Rightarrow> 'k \<Rightarrow> 'k work \<Rightarrow> panic + 'k work" where
  \<comment> \<open>one round of \<open>for _, m := range ms\<close>, for the node at pointer \<open>p\<close>\<close>
  "visit p m w =
     (let frm = NodeId (infos w ! p);
          w1 = w\<lparr>outputs_w := delete_edge frm m (outputs_w w),
                 numInputs_w := AList.update m (count_of (numInputs_w w) m - 1) (numInputs_w w)\<rparr>
      in case nodes_w w1 m of
           None \<Rightarrow> Inl NilPointer
         | Some q \<Rightarrow>
             let w2 = w1\<lparr>infos := (infos w1)[q := (infos w1 ! q)
                                      \<lparr>ParentIds := ParentIds (infos w1 ! q) @ [frm]\<rparr>]\<rparr>;
                 w3 = w2\<lparr>infos := (infos w2)[p := (infos w2 ! p)
                                      \<lparr>ChildIds := ChildIds (infos w2 ! p) @ [NodeId (infos w2 ! q)]\<rparr>]\<rparr>
             in Inr (if count_of (numInputs_w w3) m = 0
                     then w3\<lparr>next_w := next_w w3 @ [q]\<rparr> else w3))"

fun visit_all :: "nat \<Rightarrow> 'k list \<Rightarrow> 'k work \<Rightarrow> panic + 'k work" where
  "visit_all p [] w = Inr w"
| "visit_all p (m # ms) w =
     (case visit p m w of Inl e \<Rightarrow> Inl e | Inr w' \<Rightarrow> visit_all p ms w')"

definition advance :: "'k work \<Rightarrow> 'k work" where
  "advance w =
     (if current w = [] then w\<lparr>current := next_w w, next_w := [], depth := depth w + 1\<rparr> else w)"

definition step ::
  "('k::linorder option \<Rightarrow> 'k list \<Rightarrow> 'k list) \<Rightarrow> 'k work \<Rightarrow> panic + 'k work" where
  \<comment> \<open>one round of \<open>for len(current) > 0\<close>\<close>
  "step rng w =
     (case current w of
        [] \<Rightarrow> Inr w
      | p # rest \<Rightarrow>
          let w1 = w\<lparr>current := rest, sortedSets := push_level (depth w) p (sortedSets w)\<rparr>;
              n = NodeId (infos w1 ! p);
              ms = range_order rng (Some n) (remdups (bucket (outputs_w w1) n))
          in case visit_all p ms w1 of
               Inl e \<Rightarrow> Inl e
             | Inr w2 \<Rightarrow> Inr (advance w2))"

subsection \<open>The leveling loop terminates\<close>

text \<open>
  Every round takes one pointer from \<open>current\<close>, and a pointer is appended to \<open>next\<close> only
  when a counter drops from 1 to 0, which removes one positive entry of \<open>numInputs\<close>.
\<close>

definition pending :: "('k \<times> int) list \<Rightarrow> nat" where
  "pending ni = length (filter (\<lambda>kv. 0 < snd kv) ni)"

definition kahn_measure :: "'k work \<Rightarrow> nat" where
  "kahn_measure w = 2 * pending (numInputs_w w) + length (current w) + length (next_w w)"

lemma count_of_update [simp]:
  "count_of (AList.update k v ni) k' = (if k' = k then v else count_of ni k')"
  by (simp add: count_of_def update_conv')

lemma pending_decrement:
  "pending (AList.update m (count_of ni m - 1) ni) + (if count_of ni m = 1 then 1 else 0) = pending ni"
  by (induction ni) (auto simp: pending_def count_of_def)

lemma visit_measure:
  assumes "visit p m w = Inr w'"
  shows "2 * pending (numInputs_w w') + length (next_w w') \<le> 2 * pending (numInputs_w w) + length (next_w w)"
    and "current w' = current w"
proof -
  let ?ni = "AList.update m (count_of (numInputs_w w) m - 1) (numInputs_w w)"
  from assms obtain q where q: "nodes_w w m = Some q"
    by (auto simp: visit_def Let_def split: option.splits)
  have ni: "numInputs_w w' = ?ni"
    using assms q by (auto simp: visit_def Let_def split: if_splits)
  have nx: "next_w w' = (if count_of (numInputs_w w) m = 1 then next_w w @ [q] else next_w w)"
    using assms q by (auto simp: visit_def Let_def split: if_splits)
  show "current w' = current w"
    using assms q by (auto simp: visit_def Let_def split: if_splits)
  show "2 * pending (numInputs_w w') + length (next_w w') \<le> 2 * pending (numInputs_w w) + length (next_w w)"
    using pending_decrement [of m "numInputs_w w"] by (simp add: ni nx split: if_splits)
qed

lemma visit_all_measure:
  "visit_all p ms w = Inr w' \<Longrightarrow>
     2 * pending (numInputs_w w') + length (next_w w') \<le> 2 * pending (numInputs_w w) + length (next_w w)
     \<and> current w' = current w"
proof (induction ms arbitrary: w)
  case Nil
  then show ?case by simp
next
  case (Cons m ms)
  from Cons.prems obtain w1 where v: "visit p m w = Inr w1" and r: "visit_all p ms w1 = Inr w'"
    by (auto split: sum.splits)
  from visit_measure [OF v] Cons.IH [OF r] show ?case by simp
qed

lemma kahn_measure_advance: "kahn_measure (advance w) = kahn_measure w"
  by (simp add: advance_def kahn_measure_def)

lemma step_measure:
  assumes "current w \<noteq> []" and "step rng w = Inr w'"
  shows "kahn_measure w' < kahn_measure w"
proof -
  from assms(1) obtain p rest where c: "current w = p # rest" by (cases "current w") auto
  define w1 where "w1 = w\<lparr>current := rest, sortedSets := push_level (depth w) p (sortedSets w)\<rparr>"
  from assms(2) c obtain w2 where
    v: "visit_all p (range_order rng (Some (NodeId (infos w1 ! p)))
          (remdups (bucket (outputs_w w1) (NodeId (infos w1 ! p))))) w1 = Inr w2"
    and w': "w' = advance w2"
    by (auto simp: step_def Let_def w1_def split: sum.splits)
  from visit_all_measure [OF v] have "kahn_measure w2 \<le> kahn_measure w1"
    by (simp add: kahn_measure_def)
  moreover have "kahn_measure w1 < kahn_measure w"
    by (simp add: kahn_measure_def w1_def c)
  ultimately show ?thesis by (simp add: w' kahn_measure_advance)
qed

function kahn ::
  "('k::linorder option \<Rightarrow> 'k list \<Rightarrow> 'k list) \<Rightarrow> 'k work \<Rightarrow> panic + 'k work" where
  "kahn rng w =
     (if current w = [] then Inr w
      else case step rng w of Inl e \<Rightarrow> Inl e | Inr w' \<Rightarrow> kahn rng w')"
  by pat_completeness auto
termination
  by (relation "measure (\<lambda>(rng, w). kahn_measure w)") (auto dest: step_measure)

declare kahn.simps [simp del]

section \<open>Sort: cycle detection\<close>

definition topology_of :: "'k work \<Rightarrow> 'k Topology" where
  \<comment> \<open>the groups of \<open>sortedSets\<close>, every pointer read\<close>
  "topology_of w = map (map (\<lambda>p. infos w ! p)) (sortedSets w)"

definition numUnresolvedEdges :: "'k work \<Rightarrow> int" where
  "numUnresolvedEdges w = sum_list (map (count_of (numInputs_w w)) (keys_of (numInputs_w w)))"

definition invalid_keys :: "'k work \<Rightarrow> 'k list" where
  \<comment> \<open>the keys whose pointers \<open>invalidNodes\<close> collects\<close>
  "invalid_keys w = filter (\<lambda>k. 0 < count_of (numInputs_w w) k) (keys_of (numInputs_w w))"

fun deref_all :: "'k work \<Rightarrow> 'k list \<Rightarrow> panic + 'k list" where
  \<comment> \<open>\<open>sorted = append(sorted, n.Id)\<close> for the pointers \<open>nodes[id]\<close>; a nil pointer panics\<close>
  "deref_all w [] = Inr []"
| "deref_all w (k # ks) =
     (case nodes_w w k of
        None \<Rightarrow> Inl NilPointer
      | Some p \<Rightarrow> (case deref_all w ks of Inl e \<Rightarrow> Inl e | Inr ids \<Rightarrow> Inr (NodeId (infos w ! p) # ids)))"

definition cycle_seed :: "'k::linorder work \<Rightarrow> panic + 'k" where
  "cycle_seed w =
     (case deref_all w (invalid_keys w) of
        Inl e \<Rightarrow> Inl e
      | Inr ids \<Rightarrow>
          (case find (\<lambda>k. bucket (outputs_w w) k \<noteq> []) (sort ids) of
             None \<Rightarrow> Inl InvalidState
           | Some cur \<Rightarrow> Inr cur))"

definition follow ::
  "('k::linorder option \<Rightarrow> 'k list \<Rightarrow> 'k list) \<Rightarrow> ('k \<times> 'k list) list \<Rightarrow> 'k \<Rightarrow> 'k" where
  \<comment> \<open>\<open>for k, _ := range outputs[cur] { cur = k; break }\<close>\<close>
  "follow rng outs cur =
     (case range_order rng (Some cur) (remdups (bucket outs cur)) of [] \<Rightarrow> cur | k # _ \<Rightarrow> k)"

definition unseen :: "('k \<times> 'k list) list \<Rightarrow> 'k \<Rightarrow> 'k list \<Rightarrow> nat" where
  "unseen outs cur seen = card (insert cur (\<Union>(set ` snd ` set outs)) - set seen)"

lemma range_order_mset [simp]: "mset (range_order rng c ks) = mset ks"
  by (metis mset_sort range_order_def)

lemma range_order_set [simp]: "set (range_order rng c ks) = set ks"
  by (metis range_order_mset set_mset_mset)

lemma bucket_subset: "set (bucket outs k) \<subseteq> \<Union>(set ` snd ` set outs)"
proof
  fix x assume "x \<in> set (bucket outs k)"
  then obtain xs where "map_of outs k = Some xs" and "x \<in> set xs"
    by (cases "map_of outs k") (auto simp: bucket_def)
  then have "(k, xs) \<in> set outs" by (auto dest: map_of_SomeD)
  with \<open>x \<in> set xs\<close> show "x \<in> \<Union>(set ` snd ` set outs)" by force
qed

lemma follow_in: "follow rng outs cur = cur \<or> follow rng outs cur \<in> set (bucket outs cur)"
proof (cases "range_order rng (Some cur) (remdups (bucket outs cur))")
  case Nil
  then show ?thesis by (simp add: follow_def)
next
  case (Cons k ks)
  then have "k \<in> set (range_order rng (Some cur) (remdups (bucket outs cur)))" by simp
  then have "k \<in> set (bucket outs cur)" by simp
  with Cons show ?thesis by (simp add: follow_def)
qed

lemma unseen_less:
  assumes "cur \<notin> set seen"
  shows "unseen outs (follow rng outs cur) (cur # seen) < unseen outs cur seen"
proof -
  let ?U = "\<Union>(set ` snd ` set outs)"
  have "follow rng outs cur \<in> insert cur ?U"
    using follow_in [of rng outs cur] bucket_subset [of outs cur] by auto
  then have "insert (follow rng outs cur) ?U - set (cur # seen) \<subseteq> (insert cur ?U - set seen) - {cur}"
    by auto
  moreover have "cur \<in> insert cur ?U - set seen" using assms by simp
  ultimately have "insert (follow rng outs cur) ?U - set (cur # seen) \<subset> insert cur ?U - set seen"
    by blast
  moreover have "finite (insert cur ?U - set seen)" by simp
  ultimately show ?thesis unfolding unseen_def by (rule psubset_card_mono [rotated])
qed

function walk ::
  "('k::linorder option \<Rightarrow> 'k list \<Rightarrow> 'k list) \<Rightarrow> ('k \<times> 'k list) list \<Rightarrow> 'k \<Rightarrow> 'k list \<Rightarrow> 'k list \<Rightarrow> 'k list" where
  \<comment> \<open>\<open>for !seen[cur] { ... }; path = append(path, cur)\<close>\<close>
  "walk rng outs cur seen path =
     (if cur \<in> set seen then path @ [cur]
      else walk rng outs (follow rng outs cur) (cur # seen) (path @ [cur]))"
  by pat_completeness auto
termination
  by (relation "measure (\<lambda>(rng, outs, cur, seen, path). unseen outs cur seen)")
     (auto intro: unseen_less)

declare walk.simps [simp del]

section \<open>Sort: scoping the levels, and the whole function\<close>

text \<open>
  \<open>only\<close> is \<open>None\<close> for the nil map and otherwise the list of its keys. The loop
  \<open>for target := range only\<close> collects \<open>dependents\<close> in an order Go leaves open; the list is
  only tested for emptiness or sorted before it is returned, so the model takes the keys
  in the order of the list.
\<close>

definition include_node ::
  "'k::linorder DAG \<Rightarrow> bool \<Rightarrow> bool \<Rightarrow> 'k NodeInfo \<Rightarrow> 'k list option \<times> 'k NodeInfo list
     \<Rightarrow> 'k Error + ('k list option \<times> 'k NodeInfo list)" where
  \<comment> \<open>one round of \<open>for i := range v\<close>; the state is \<open>(only, included)\<close>\<close>
  "include_node g withDeps withoutDeps node st =
     (case fst st of
        None \<Rightarrow> Inr (None, snd st @ [node])
      | Some sel \<Rightarrow>
          if NodeId node \<in> set sel then Inr (Some sel, snd st @ [node])
          else if withoutDeps then Inr st
          else
            let allDependents = bucket (outputs g) (NodeId node);
                dependents = filter (\<lambda>target. target \<in> set allDependents) sel
            in if dependents \<noteq> [] then
                 (if \<not> withDeps
                  then Inl (UnhandledDependencyError [(NodeId node, sort dependents)])
                  else Inr (Some (List.insert (NodeId node) sel), snd st @ [node]))
               else Inr st)"

fun scan_level ::
  "'k::linorder DAG \<Rightarrow> bool \<Rightarrow> bool \<Rightarrow> 'k NodeInfo list \<Rightarrow> 'k list option \<times> 'k NodeInfo list
     \<Rightarrow> 'k Error + ('k list option \<times> 'k NodeInfo list)" where
  "scan_level g wd wod [] st = Inr st"
| "scan_level g wd wod (node # v) st =
     (case include_node g wd wod node st of
        Inl e \<Rightarrow> Inl e
      | Inr st' \<Rightarrow> scan_level g wd wod v st')"

fun scope_levels ::
  "'k::linorder DAG \<Rightarrow> bool \<Rightarrow> bool \<Rightarrow> 'k Topology \<Rightarrow> 'k list option \<Rightarrow> 'k Topology
     \<Rightarrow> 'k Error + 'k Topology" where
  \<comment> \<open>\<open>for k := len(sortedSets) - 1; k >= 0; k--\<close>: the levels come last first, and
      \<open>r\<close> is filled from its end\<close>
  "scope_levels g wd wod [] only r = Inr r"
| "scope_levels g wd wod (v # vs) only r =
     (case scan_level g wd wod v (only, []) of
        Inl e \<Rightarrow> Inl e
      | Inr (only', included) \<Rightarrow>
          scope_levels g wd wod vs only'
            ((if included = [] then [] else sort_key NodeId included) # r))"

definition resolve_scope ::
  "'k::linorder DAG \<Rightarrow> 'k SortOptions \<Rightarrow> 'k list option \<Rightarrow> 'k Topology \<Rightarrow> 'k outcome" where
  "resolve_scope g options only levels =
     (case scope_levels g (so_WithDependencies options) (so_WithoutDependencies options)
             (rev levels) only [] of
        Inl e \<Rightarrow> Returns None (Some e)
      | Inr r \<Rightarrow> Returns (Some (filter (\<lambda>ns. ns \<noteq> []) r)) None)"

definition only_of :: "'k SortOptions \<Rightarrow> 'k list option" where
  "only_of options =
     (if so_Only options = [] then None else Some (fold List.insert (so_Only options) []))"

definition sort_options :: "'k SortOption list \<Rightarrow> 'k SortOptions" where
  \<comment> \<open>\<open>var options SortOptions; for _, o := range opts { o.ApplySortOptions(&options) }\<close>\<close>
  "sort_options opts =
     fold ApplySortOptions opts
       \<lparr>so_Only = [], so_WithDependencies = False, so_WithoutDependencies = False\<rparr>"

definition level_and_scope ::
  "('k::linorder option \<Rightarrow> 'k list \<Rightarrow> 'k list) \<Rightarrow> 'k DAG \<Rightarrow> 'k SortOptions \<Rightarrow> 'k work \<Rightarrow> 'k outcome" where
  \<comment> \<open>\<open>Sort\<close> from \<open>sortedSets := map[int][]*NodeInfo{}\<close> on\<close>
  "level_and_scope rng g options w0 =
     (case kahn rng w0 of
        Inl e \<Rightarrow> Panics e
      | Inr w \<Rightarrow>
          if 0 < numUnresolvedEdges w then
            (case cycle_seed w of
               Inl e \<Rightarrow> Panics e
             | Inr cur \<Rightarrow>
                 Returns (Some (topology_of w))
                   (Some (CycleError (walk rng (outputs_w w) cur [] []))))
          else resolve_scope g options (only_of options) (topology_of w))"

definition Sort ::
  "('k::linorder option \<Rightarrow> 'k list \<Rightarrow> 'k list) \<Rightarrow> 'k DAG \<Rightarrow> 'k SortOption list \<Rightarrow> 'k outcome" where
  "Sort rng g opts =
     (let options = sort_options opts;
          w0 = init_work g
      in case find (\<lambda>dep. nodes_w w0 dep = None) (range_order rng None (keys_of (outputs_w w0))) of
           Some dep \<Rightarrow>
             Returns None (Some (UndefinedDependencyError dep
               (range_order rng (Some dep) (remdups (bucket (outputs_w w0) dep)))))
         | None \<Rightarrow> level_and_scope rng g options w0)"

definition Plan ::
  "('k::linorder option \<Rightarrow> 'k list \<Rightarrow> 'k list) \<Rightarrow> 'k DAG \<Rightarrow> 'k SortOption list \<Rightarrow> 'k outcome" where
  "Plan rng g opts = Sort rng g opts"

text \<open>
  \<open>sort.Slice\<close> is not stable; the model sorts \<open>included\<close> with the stable insertion sort
  \<open>sort_key\<close>, which is what Go runs on slices of at most 12 elements. The two agree on
  the keys; they can differ only in the order of two \<open>NodeInfo\<close>s with the same key.
\<close>

section \<open>Rendering\<close>

fun join :: "string \<Rightarrow> string list \<Rightarrow> string" where
  \<comment> \<open>\<open>strings.Join(elems, sep)\<close>\<close>
  "join sep [] = []"
| "join sep [x] = x"
| "join sep (x # y # ys) = x @ sep @ join sep (y # ys)"

definition quote :: "string \<Rightarrow> string" where
  \<comment> \<open>\<open>%q\<close> on a string of printable ASCII: only the double quote and the backslash are escaped\<close>
  "quote s =
     [CHR 0x22] @ concat (map (\<lambda>c. if c = CHR 0x22 \<or> c = CHR 0x5C then [CHR 0x5C, c] else [c]) s)
       @ [CHR 0x22]"

definition Topology_String :: "('k::linorder \<Rightarrow> string) \<Rightarrow> 'k Topology option \<Rightarrow> string" where
  \<comment> \<open>\<open>sprintKey\<close> is the parameter \<open>shw\<close>; a nil Topology has length 0\<close>
  "Topology_String shw r =
     (case r of
        None \<Rightarrow> []
      | Some r \<Rightarrow>
          if r = [] then []
          else join '' -> '' (map (\<lambda>set. join '', '' (map shw (sort (map NodeId set)))) r))"

definition Error_String :: "('k \<Rightarrow> string) \<Rightarrow> 'k Error \<Rightarrow> panic + string" where
  "Error_String shw e =
     (case e of
        CycleError path \<Rightarrow> Inr (''cycle detected: '' @ join '' -> '' (map shw path))
      | UndefinedDependencyError k ds \<Rightarrow>
          Inr (''undefined node '' @ quote (shw k) @ '' is depended by node(s): ''
                 @ join '', '' (map shw ds))
      | UnhandledDependencyError uds \<Rightarrow>
          (case uds of
             [] \<Rightarrow> Inl IndexOutOfRange
           | ud # _ \<Rightarrow>
               let dependents = map (\<lambda>d. quote (shw d)) (snd ud);
                   ds = (if length dependents < 3 then join '' and '' dependents
                         else join '', '' (butlast dependents) @ '', and '' @ last dependents)
               in Inr (quote (shw (fst ud)) @ '' depended by '' @ ds @ '' is not included'')))"

section \<open>Concrete runs and graphs\<close>

definition list_order :: "'k option \<Rightarrow> 'k list \<Rightarrow> 'k list" where
  \<comment> \<open>the run in which every \<open>range\<close> visits the keys in the order of the list\<close>
  "list_order c ks = ks"

definition reverse_order :: "'k option \<Rightarrow> 'k list \<Rightarrow> 'k list" where
  "reverse_order c ks = rev ks"

definition indegree :: "'k DAG \<Rightarrow> 'k \<Rightarrow> nat" where
  \<comment> \<open>the number of edges of the store that point to \<open>n\<close>\<close>
  "indegree g n = length (filter (\<lambda>k. n \<in> set (bucket (outputs g) k)) (keys_of (outputs g)))"

definition edges :: "'k DAG \<Rightarrow> ('k \<times> 'k) list" where
  \<comment> \<open>the edges of the store, \<open>(dependency, dependent)\<close>\<close>
  "edges g = concat (map (\<lambda>k. map (Pair k) (remdups (bucket (outputs g) k))) (keys_of (outputs g)))"

definition scenario1 :: "string DAG" where
  "scenario1 =
     snd (AddDependencies ''mesh'' [''net'']
       (snd (AddDependencies ''db'' [''net'']
         (snd (AddDependencies ''api'' [''db'', ''cache'', ''net'']
           (snd (AddDependencies ''web'' [''api'', ''cache'', ''net'']
             (New [Nodes [''web'', ''api'', ''db'', ''cache'', ''mesh'', ''net'']]))))))))"

definition scenario6 :: "string DAG" where
  "scenario6 = snd (Add ''web'' [Dependencies [''ng'']] (New []))"

definition emptied_bucket_graph :: "string DAG" where
  "emptied_bucket_graph = snd (RemoveEdge ''ng'' ''web'' (snd (AddEdge ''ng'' ''web'' (New []))))"

definition double_edge_graph :: "string DAG" where
  "double_edge_graph = snd (AddEdge ''a'' ''b'' (snd (AddEdge ''a'' ''b'' (New [Nodes [''a'', ''b'']]))))"

definition dead_end_graph :: "string DAG" where
  "dead_end_graph =
     snd (AddEdge ''a'' ''d'' (snd (AddEdge ''b'' ''a'' (snd (AddEdge ''c'' ''b''
       (snd (AddEdge ''b'' ''c'' (New [Nodes [''a'', ''b'', ''c'', ''d'']]))))))))"

definition tail_graph :: "string DAG" where
  "tail_graph =
     snd (AddEdge ''c'' ''b'' (snd (AddEdge ''b'' ''c'' (snd (AddEdge ''a'' ''b''
       (snd (AddEdge ''x'' ''a'' (snd (AddEdge ''y'' ''x'' (snd (AddEdge ''x'' ''y''
         (New [Nodes [''a'', ''b'', ''c'', ''x'', ''y'']]))))))))))))"

definition free_node_and_cycle_graph :: "string DAG" where
  \<comment> \<open>\<open>x\<close> depends on nothing; \<open>a\<close> and \<open>b\<close> depend on each other\<close>
  "free_node_and_cycle_graph =
     snd (AddEdge ''b'' ''a'' (snd (AddEdge ''a'' ''b'' (New [Nodes [''x'', ''a'', ''b'']]))))"

definition chain_and_cycle_graph :: "string DAG" where
  \<comment> \<open>\<open>y\<close> depends on \<open>x\<close>; \<open>a\<close> and \<open>b\<close> depend on each other\<close>
  "chain_and_cycle_graph =
     snd (AddEdge ''b'' ''a'' (snd (AddEdge ''a'' ''b'' (snd (AddEdge ''x'' ''y''
       (New [Nodes [''x'', ''y'', ''a'', ''b'']]))))))"

definition stale_count_graph :: "string DAG" where
  \<comment> \<open>the edges \<open>r \<rightarrow> x\<close>, \<open>r \<rightarrow> y\<close>, \<open>y \<rightarrow> x\<close>, \<open>x \<rightarrow> z\<close>, and then \<open>RemoveEdge(x, x)\<close>\<close>
  "stale_count_graph =
     snd (RemoveEdge ''x'' ''x'' (snd (AddEdge ''x'' ''z'' (snd (AddEdge ''y'' ''x''
       (snd (AddEdge ''r'' ''y'' (snd (AddEdge ''r'' ''x''
         (New [Nodes [''r'', ''x'', ''y'', ''z'']]))))))))))"

section \<open>The graph store: registering nodes and counting inputs\<close>

text \<open>
  C4. The claim: once a key is registered, \<open>AddNode\<close> on it returns false and changes
  nothing. The code tests \<open>numInputs\<close> for the key, and \<open>AddNode\<close> never writes \<open>numInputs\<close>
  (its last \<open>if\<close> asks for the key to be present right after the function has returned
  for a present key). So a node without incoming edges is accepted again: on the empty
  graph, \<open>AddNode(a)\<close> twice returns true both times and leaves \<open>a\<close> in the node list
  twice.
\<close>

theorem AddNode_registered_twice:
  "AddNode ''a'' (New [])
     = (True, \<lparr>cap = 0, initNodes = [], nodes = [''a''], outputs = [(''a'', [])],
               labels = [], numInputs = []\<rparr>)
   \<and> AddNode ''a'' (snd (AddNode ''a'' (New [])))
     = (True, \<lparr>cap = 0, initNodes = [], nodes = [''a'', ''a''], outputs = [(''a'', [])],
               labels = [], numInputs = []\<rparr>)
   \<and> nodes (New [Nodes [''a'', ''a'']]) = [''a'', ''a'']"
  by code_simp

text \<open>
  C3. The claim: the stored count of a key is the number of edges that point to it, and
  adding an edge that is present changes nothing. \<open>AddEdge\<close> increments the counter
  whether or not the edge is new: after \<open>AddEdge(a, b)\<close> twice on the nodes \<open>a\<close>, \<open>b\<close> the
  store holds the one edge \<open>(a, b)\<close> and the count 2 for \<open>b\<close>, the second call has changed
  the store, and \<open>Sort\<close> ends in its panic "invalid state".
\<close>

theorem AddEdge_twice_counts_twice:
  "edges double_edge_graph = [(''a'', ''b'')]
   \<and> indegree double_edge_graph ''b'' = 1
   \<and> count_of (numInputs double_edge_graph) ''b'' = 2
   \<and> double_edge_graph \<noteq> snd (AddEdge ''a'' ''b'' (New [Nodes [''a'', ''b'']]))
   \<and> Sort list_order double_edge_graph [] = Panics InvalidState"
  by code_simp

section \<open>The path of a cycle error\<close>

text \<open>
  C5. The claim: the path of every cycle error starts and ends at the same key, and each
  two consecutive keys are an edge. The walk starts at the smallest key with a positive
  count and an outgoing edge, which need not lie on a cycle, and it stops at the first
  key it sees twice. With the edges \<open>b \<rightarrow> c\<close>, \<open>c \<rightarrow> b\<close>, \<open>b \<rightarrow> a\<close>, \<open>a \<rightarrow> d\<close> the path is
  \<open>a, d, d\<close>: it starts at \<open>a\<close>, ends at \<open>d\<close>, and \<open>(d, d)\<close> is no edge. With the edges
  \<open>x \<rightarrow> y\<close>, \<open>y \<rightarrow> x\<close>, \<open>x \<rightarrow> a\<close>, \<open>a \<rightarrow> b\<close>, \<open>b \<rightarrow> c\<close>, \<open>c \<rightarrow> b\<close> the path is \<open>a, b, c, b\<close>. In
  both graphs every count is the number of incoming edges.
\<close>

theorem cycle_path_not_closed:
  "Sort list_order dead_end_graph [] = Returns (Some []) (Some (CycleError [''a'', ''d'', ''d'']))
   \<and> edges dead_end_graph = [(''a'', ''d''), (''b'', ''a''), (''b'', ''c''), (''c'', ''b'')]
   \<and> map (count_of (numInputs dead_end_graph)) [''a'', ''b'', ''c'', ''d'']
       = map (int \<circ> indegree dead_end_graph) [''a'', ''b'', ''c'', ''d'']
   \<and> Sort list_order tail_graph [] = Returns (Some []) (Some (CycleError [''a'', ''b'', ''c'', ''b'']))
   \<and> Sort reverse_order tail_graph [] = Returns (Some []) (Some (CycleError [''a'', ''b'', ''c'', ''b'']))"
  by code_simp

section \<open>The undefined-dependency error\<close>

lemma fold_register_frame:
  "outputs_w (fold register_node ns w) = outputs_w w \<and>
   numInputs_w (fold register_node ns w) = numInputs_w w \<and>
   next_w (fold register_node ns w) = next_w w \<and>
   depth (fold register_node ns w) = depth w \<and>
   sortedSets (fold register_node ns w) = sortedSets w"
  by (induction ns arbitrary: w) (auto simp: register_node_def Let_def)

lemma fold_register_infos:
  "infos (fold register_node ns w) =
     infos w @ map (\<lambda>n. \<lparr>NodeId = n, ParentIds = [], ChildIds = []\<rparr>) ns"
  by (induction ns arbitrary: w) (auto simp: register_node_def Let_def)

lemma fold_register_dom:
  "dom (nodes_w (fold register_node ns w)) = dom (nodes_w w) \<union> set ns"
  by (induction ns arbitrary: w) (auto simp: register_node_def Let_def)

lemma init_work_frame [simp]:
  "outputs_w (init_work g) = outputs g" "numInputs_w (init_work g) = numInputs g"
  "next_w (init_work g) = []" "depth (init_work g) = 0" "sortedSets (init_work g) = []"
  by (simp_all add: init_work_def fold_register_frame)

lemma init_work_registered: "nodes_w (init_work g) k = None \<longleftrightarrow> k \<notin> set (nodes g)"
proof -
  have "dom (nodes_w (init_work g)) = set (nodes g)"
    by (simp add: init_work_def fold_register_dom)
  then show ?thesis by (metis domIff)
qed

lemma init_work_infos [simp]:
  "infos (init_work g) = map (\<lambda>n. \<lparr>NodeId = n, ParentIds = [], ChildIds = []\<rparr>) (nodes g)"
  by (simp add: init_work_def fold_register_infos)

lemma keys_of_set [simp]: "set (keys_of m) = fst ` set m"
  by (simp add: keys_of_def)

definition first_undefined ::
  "('k::linorder option \<Rightarrow> 'k list \<Rightarrow> 'k list) \<Rightarrow> 'k DAG \<Rightarrow> 'k option" where
  "first_undefined rng g =
     find (\<lambda>dep. dep \<notin> set (nodes g)) (range_order rng None (keys_of (outputs g)))"

lemma first_undefined_None: "first_undefined rng g = None \<longleftrightarrow> (\<forall>k \<in> fst ` set (outputs g). k \<in> set (nodes g))"
  by (auto simp: first_undefined_def find_None_iff)

lemma first_undefined_Some:
  assumes "first_undefined rng g = Some k"
  shows "k \<in> fst ` set (outputs g) \<and> k \<notin> set (nodes g)"
proof -
  from assms obtain i where "i < length (range_order rng None (keys_of (outputs g)))"
    and "range_order rng None (keys_of (outputs g)) ! i = k" and "k \<notin> set (nodes g)"
    unfolding first_undefined_def find_Some_iff by blast
  then have "k \<in> set (range_order rng None (keys_of (outputs g)))" by (metis nth_mem)
  with \<open>k \<notin> set (nodes g)\<close> show ?thesis by simp
qed

lemma Sort_unfold:
  "Sort rng g opts =
     (case first_undefined rng g of
        Some dep \<Rightarrow> Returns None (Some (UndefinedDependencyError dep
               (range_order rng (Some dep) (remdups (bucket (outputs g) dep)))))
      | None \<Rightarrow> level_and_scope rng g (sort_options opts) (init_work g))"
  by (simp add: Sort_def Let_def init_work_registered first_undefined_def split: option.splits)

lemma include_node_error:
  "include_node g wd wod node st = Inl e \<Longrightarrow> \<exists>k ds. e = UnhandledDependencyError [(k, ds)]"
  by (auto simp: include_node_def Let_def split: option.splits if_splits)

lemma scan_level_error:
  "scan_level g wd wod v st = Inl e \<Longrightarrow> \<exists>k ds. e = UnhandledDependencyError [(k, ds)]"
  by (induction v arbitrary: st) (auto split: sum.splits dest: include_node_error)

lemma scope_levels_error:
  "scope_levels g wd wod vs only r = Inl e \<Longrightarrow> \<exists>k ds. e = UnhandledDependencyError [(k, ds)]"
  by (induction vs arbitrary: only r) (auto split: sum.splits prod.splits dest: scan_level_error)

lemma level_and_scope_not_undefined:
  "level_and_scope rng g options w0 \<noteq> Returns t (Some (UndefinedDependencyError k ds))"
  by (auto simp: level_and_scope_def resolve_scope_def split: sum.splits dest: scope_levels_error)


text \<open>
  C6, as amended. \<open>Sort\<close> returns an undefined-dependency error if and only if some key of
  the map \<open>outputs\<close> is not a registered node. \<open>AddEdge\<close> gives its source such a key and
  \<open>RemoveEdge\<close> leaves it in place, so the key may have no edge left. The error comes with
  a nil Topology and carries such a key and the keys of its bucket, in the order the
  bucket is ranged over. It is returned before any leveling: the counts and the options
  have no part in it.
\<close>

theorem Sort_undefined_dependency:
  "((\<exists>t k ds. Sort rng g opts = Returns t (Some (UndefinedDependencyError k ds)))
      \<longleftrightarrow> (\<exists>k. k \<in> fst ` set (outputs g) \<and> k \<notin> set (nodes g)))
   \<and> (\<forall>t k ds. Sort rng g opts = Returns t (Some (UndefinedDependencyError k ds)) \<longrightarrow>
         t = None \<and> k \<in> fst ` set (outputs g) \<and> k \<notin> set (nodes g)
         \<and> mset ds = mset (remdups (bucket (outputs g) k))
         \<and> (\<forall>ni opts'. Sort rng (g\<lparr>numInputs := ni\<rparr>) opts' = Sort rng g opts))"
proof (cases "first_undefined rng g")
  case None
  then have "Sort rng g opts = level_and_scope rng g (sort_options opts) (init_work g)"
    by (simp add: Sort_unfold)
  moreover from None have "\<not> (\<exists>k. k \<in> fst ` set (outputs g) \<and> k \<notin> set (nodes g))"
    by (auto simp: first_undefined_None)
  ultimately show ?thesis
    by (simp add: level_and_scope_not_undefined)
next
  case (Some dep)
  have "first_undefined rng (g\<lparr>numInputs := ni\<rparr>) = first_undefined rng g" for ni
    by (simp add: first_undefined_def)
  with Some first_undefined_Some [OF Some] show ?thesis
    by (auto simp: Sort_unfold)
qed

theorem Sort_undefined_dependency_witness:
  "Sort list_order scenario6 [] = Returns None (Some (UndefinedDependencyError ''ng'' [''web'']))
   \<and> Error_String id (UndefinedDependencyError ''ng'' [''web''])
       = Inr (''undefined node '' @ [CHR 0x22] @ ''ng'' @ [CHR 0x22] @ '' is depended by node(s): web'')
   \<and> ''ng'' \<in> fst ` set (outputs scenario6) \<and> ''ng'' \<notin> set (nodes scenario6)
   \<and> Sort list_order (scenario6\<lparr>numInputs := []\<rparr>) [WithDependencies] = Sort list_order scenario6 []"
proof -
  have a: "Sort list_order scenario6 [] = Returns None (Some (UndefinedDependencyError ''ng'' [''web'']))"
    by code_simp
  have b: "Error_String id (UndefinedDependencyError ''ng'' [''web''])
       = Inr (''undefined node '' @ [CHR 0x22] @ ''ng'' @ [CHR 0x22] @ '' is depended by node(s): web'')"
    by code_simp
  from Sort_undefined_dependency [of list_order scenario6 "[]"] a
  have "''ng'' \<in> fst ` set (outputs scenario6) \<and> ''ng'' \<notin> set (nodes scenario6)
     \<and> Sort list_order (scenario6\<lparr>numInputs := []\<rparr>) [WithDependencies] = Sort list_order scenario6 []"
    by blast
  with a b show ?thesis by simp
qed

theorem Sort_undefined_without_edge:
  "edges emptied_bucket_graph = []
   \<and> Sort list_order emptied_bucket_graph [] = Returns None (Some (UndefinedDependencyError ''ng'' []))"
  by code_simp

section \<open>The leveling loop\<close>

subsection \<open>What the rounds of the leveling loop do\<close>

lemma bucket_delete_edge:
  "bucket (delete_edge frm m outs) u = (if u = frm then removeAll m (bucket outs frm) else bucket outs u)"
  by (cases "map_of outs frm") (auto simp: delete_edge_def bucket_def update_conv')

lemma map_update_same: "(map f xs)[q := f (xs ! q)] = map f xs"
proof (cases "q < length xs")
  case True
  then have "f (xs ! q) = map f xs ! q" by simp
  then show ?thesis by (simp only: list_update_id)
next
  case False
  then show ?thesis by (simp add: list_update_beyond)
qed

lemma map_NodeId_update:
  "map NodeId (xs[q := (xs ! q)\<lparr>ParentIds := ps\<rparr>]) = map NodeId xs"
  "map NodeId (xs[q := (xs ! q)\<lparr>ChildIds := cs\<rparr>]) = map NodeId xs"
  by (simp_all add: map_update map_update_same)

lemma visit_Inr:
  assumes "visit p m w = Inr w'"
  shows "\<exists>q. nodes_w w m = Some q
      \<and> outputs_w w' = delete_edge (NodeId (infos w ! p)) m (outputs_w w)
      \<and> numInputs_w w' = AList.update m (count_of (numInputs_w w) m - 1) (numInputs_w w)
      \<and> next_w w' = next_w w @ (if count_of (numInputs_w w) m = 1 then [q] else [])
      \<and> map NodeId (infos w') = map NodeId (infos w)
      \<and> current w' = current w \<and> depth w' = depth w \<and> sortedSets w' = sortedSets w
      \<and> nodes_w w' = nodes_w w"
proof -
  from assms obtain q where q: "nodes_w w m = Some q"
    by (auto simp: visit_def Let_def split: option.splits)
  with assms show ?thesis
    by (auto simp: visit_def Let_def map_NodeId_update split: if_splits)
qed

lemma visit_Inl: "visit p m w = Inl e \<longleftrightarrow> e = NilPointer \<and> nodes_w w m = None"
  by (auto simp: visit_def Let_def split: option.splits)

lemma map_NodeId_nth:
  "map NodeId xs = map NodeId ys \<Longrightarrow> p < length xs \<Longrightarrow> NodeId (ys ! p) = NodeId (xs ! p)"
  by (metis length_map nth_map)

lemma visit_all_Inr:
  assumes "visit_all p ms w = Inr w'" and "distinct ms" and "p < length (infos w)"
  shows "(\<forall>m\<in>set ms. nodes_w w m \<noteq> None)
      \<and> (\<forall>u. bucket (outputs_w w') u =
            (if u = NodeId (infos w ! p)
             then filter (\<lambda>x. x \<notin> set ms) (bucket (outputs_w w) u) else bucket (outputs_w w) u))
      \<and> (\<forall>v. count_of (numInputs_w w') v = count_of (numInputs_w w) v - (if v \<in> set ms then 1 else 0))
      \<and> next_w w' = next_w w @ map (\<lambda>m. the (nodes_w w m)) (filter (\<lambda>m. count_of (numInputs_w w) m = 1) ms)
      \<and> map NodeId (infos w') = map NodeId (infos w)
      \<and> current w' = current w \<and> depth w' = depth w \<and> sortedSets w' = sortedSets w
      \<and> nodes_w w' = nodes_w w"
  using assms
proof (induction ms arbitrary: w)
  case Nil
  then show ?case by simp
next
  case (Cons m ms)
  from Cons.prems obtain w1 where v: "visit p m w = Inr w1" and r: "visit_all p ms w1 = Inr w'"
    by (auto split: sum.splits)
  from visit_Inr [OF v] obtain q where q: "nodes_w w m = Some q"
      and o1: "outputs_w w1 = delete_edge (NodeId (infos w ! p)) m (outputs_w w)"
      and n1: "numInputs_w w1 = AList.update m (count_of (numInputs_w w) m - 1) (numInputs_w w)"
      and x1: "next_w w1 = next_w w @ (if count_of (numInputs_w w) m = 1 then [q] else [])"
      and i1: "map NodeId (infos w1) = map NodeId (infos w)"
      and f1: "current w1 = current w" "depth w1 = depth w" "sortedSets w1 = sortedSets w"
              "nodes_w w1 = nodes_w w"
    by blast
  from i1 have l1: "length (infos w1) = length (infos w)" by (metis length_map)
  from i1 Cons.prems(3) have id1: "NodeId (infos w1 ! p) = NodeId (infos w ! p)"
    by (rule map_NodeId_nth [OF sym])
  from Cons.prems have d: "distinct ms" "m \<notin> set ms" by auto
  from Cons.IH [OF r d(1)] Cons.prems(3) l1
  have ih: "(\<forall>m\<in>set ms. nodes_w w1 m \<noteq> None)"
      "\<And>u. bucket (outputs_w w') u =
            (if u = NodeId (infos w1 ! p)
             then filter (\<lambda>x. x \<notin> set ms) (bucket (outputs_w w1) u) else bucket (outputs_w w1) u)"
      "\<And>v. count_of (numInputs_w w') v = count_of (numInputs_w w1) v - (if v \<in> set ms then 1 else 0)"
      "next_w w' = next_w w1 @ map (\<lambda>m. the (nodes_w w1 m)) (filter (\<lambda>m. count_of (numInputs_w w1) m = 1) ms)"
      "map NodeId (infos w') = map NodeId (infos w1)"
      "current w' = current w1" "depth w' = depth w1" "sortedSets w' = sortedSets w1"
      "nodes_w w' = nodes_w w1"
    by simp_all
  have flt: "filter (\<lambda>m. count_of (numInputs_w w1) m = 1) ms = filter (\<lambda>m. count_of (numInputs_w w) m = 1) ms"
    using d(2) by (intro filter_cong) (auto simp: n1)
  have "\<forall>m'\<in>set (m # ms). nodes_w w m' \<noteq> None" using ih(1) q f1 by auto
  moreover have "\<forall>u. bucket (outputs_w w') u =
            (if u = NodeId (infos w ! p)
             then filter (\<lambda>x. x \<notin> set (m # ms)) (bucket (outputs_w w) u) else bucket (outputs_w w) u)"
    by (auto simp: ih(2) id1 o1 bucket_delete_edge removeAll_filter_not_eq intro: filter_cong)
  moreover have "\<forall>v. count_of (numInputs_w w') v = count_of (numInputs_w w) v - (if v \<in> set (m # ms) then 1 else 0)"
    using d(2) by (auto simp: ih(3) n1)
  moreover have "next_w w' = next_w w @ map (\<lambda>m. the (nodes_w w m)) (filter (\<lambda>m. count_of (numInputs_w w) m = 1) (m # ms))"
    by (simp add: ih(4) flt x1 f1 q)
  ultimately show ?case using ih(5-9) i1 f1 by simp
qed

lemma visit_all_Inl:
  "visit_all p ms w = Inl e \<Longrightarrow> e = NilPointer \<and> (\<exists>m\<in>set ms. nodes_w w m = None)"
proof (induction ms arbitrary: w)
  case Nil
  then show ?case by simp
next
  case (Cons m ms)
  show ?case
  proof (cases "visit p m w")
    case (Inl e')
    with Cons.prems show ?thesis by (auto simp: visit_Inl)
  next
    case (Inr w1)
    with Cons.prems have "visit_all p ms w1 = Inl e" by simp
    from Cons.IH [OF this] visit_Inr [OF Inr] show ?thesis by auto
  qed
qed


subsection \<open>The state the loop starts from\<close>

definition ptrs_ok :: "'k DAG \<Rightarrow> 'k work \<Rightarrow> bool" where
  "ptrs_ok g w \<longleftrightarrow>
     map NodeId (infos w) = nodes g
     \<and> (\<forall>k p. nodes_w w k = Some p \<longrightarrow> p < length (nodes g) \<and> nodes g ! p = k)
     \<and> (\<forall>k. k \<in> set (nodes g) \<longrightarrow> nodes_w w k \<noteq> None)
     \<and> (\<forall>p. p \<in> set (current w) \<or> p \<in> set (next_w w) \<or> (\<exists>s\<in>set (sortedSets w). p \<in> set s)
           \<longrightarrow> p < length (nodes g))"

lemma register_node_fields:
  "nodes_w (register_node n w) = (nodes_w w)(n \<mapsto> length (infos w))"
  "infos (register_node n w) = infos w @ [\<lparr>NodeId = n, ParentIds = [], ChildIds = []\<rparr>]"
  "current (register_node n w) =
     (if count_of (numInputs_w w) n = 0 then current w @ [length (infos w)] else current w)"
  by (simp_all add: register_node_def Let_def)

lemma fold_register_current:
  "current (fold register_node ns
      \<lparr>numInputs_w = ni, outputs_w = outs, infos = [], nodes_w = Map.empty,
        current = [], next_w = [], depth = 0, sortedSets = []\<rparr>)
    = filter (\<lambda>p. count_of ni (ns ! p) = 0) [0..<length ns]"
proof (induction ns rule: rev_induct)
  case Nil
  then show ?case by simp
next
  case (snoc n ns)
  let ?w0 = "\<lparr>numInputs_w = ni, outputs_w = outs, infos = [], nodes_w = Map.empty,
        current = [], next_w = [], depth = 0, sortedSets = []\<rparr>"
  have len: "length (infos (fold register_node ns ?w0)) = length ns"
    by (simp add: fold_register_infos)
  have ni: "numInputs_w (fold register_node ns ?w0) = ni"
    by (simp add: fold_register_frame)
  have flt: "filter (\<lambda>p. count_of ni ((ns @ [n]) ! p) = 0) [0..<length ns]
           = filter (\<lambda>p. count_of ni (ns ! p) = 0) [0..<length ns]"
    by (intro filter_cong) (auto simp: nth_append)
  show ?case
    by (simp add: register_node_fields len ni snoc.IH flt)
qed

lemma fold_register_ptr:
  "nodes_w (fold register_node ns
      \<lparr>numInputs_w = ni, outputs_w = outs, infos = [], nodes_w = Map.empty,
        current = [], next_w = [], depth = 0, sortedSets = []\<rparr>) k = Some p
   \<Longrightarrow> p < length ns \<and> ns ! p = k"
proof (induction ns arbitrary: p rule: rev_induct)
  case Nil
  then show ?case by simp
next
  case (snoc n ns)
  let ?w0 = "\<lparr>numInputs_w = ni, outputs_w = outs, infos = [], nodes_w = Map.empty,
        current = [], next_w = [], depth = 0, sortedSets = []\<rparr>"
  have len: "length (infos (fold register_node ns ?w0)) = length ns"
    by (simp add: fold_register_infos)
  show ?case
  proof (cases "k = n")
    case True
    with snoc.prems have "p = length ns"
      by (simp add: register_node_fields len)
    with True show ?thesis by simp
  next
    case False
    with snoc.prems have "nodes_w (fold register_node ns ?w0) k = Some p"
      by (simp add: register_node_fields)
    from snoc.IH [OF this] show ?thesis by (simp add: nth_append)
  qed
qed

lemma init_work_current:
  "current (init_work g) = filter (\<lambda>p. count_of (numInputs g) (nodes g ! p) = 0) [0..<length (nodes g)]"
  by (simp add: init_work_def fold_register_current)

lemma init_work_ptrs_ok: "ptrs_ok g (init_work g)"
  unfolding ptrs_ok_def
proof (intro conjI allI impI)
  show "map NodeId (infos (init_work g)) = nodes g"
    by (simp add: comp_def)
next
  fix k p assume "nodes_w (init_work g) k = Some p"
  then show "p < length (nodes g)" "nodes g ! p = k"
    using fold_register_ptr [of "nodes g" "numInputs g" "outputs g" k p]
    by (simp_all add: init_work_def)
next
  fix k assume "k \<in> set (nodes g)"
  then show "nodes_w (init_work g) k \<noteq> None" by (simp add: init_work_registered)
next
  fix p assume "p \<in> set (current (init_work g)) \<or> p \<in> set (next_w (init_work g))
     \<or> (\<exists>s\<in>set (sortedSets (init_work g)). p \<in> set s)"
  then show "p < length (nodes g)" by (auto simp: init_work_current)
qed


subsection \<open>One round of the loop, seen through the edges, the counts and the levels\<close>

definition edges_w :: "'k work \<Rightarrow> ('k \<times> 'k) set" where
  "edges_w w = {(u, v). v \<in> set (bucket (outputs_w w) u)}"

definition placed :: "'k DAG \<Rightarrow> 'k work \<Rightarrow> (nat \<times> 'k) set" where
  "placed g w = (\<Union>i<length (sortedSets w). (\<lambda>p. (i, nodes g ! p)) ` set (sortedSets w ! i))"

definition queued :: "'k DAG \<Rightarrow> 'k work \<Rightarrow> (nat \<times> 'k) set" where
  "queued g w = (\<lambda>p. (depth w, nodes g ! p)) ` set (current w)
                \<union> (\<lambda>p. (Suc (depth w), nodes g ! p)) ` set (next_w w)"

definition shape :: "'k work \<Rightarrow> bool" where
  "shape w \<longleftrightarrow>
     (length (sortedSets w) = depth w \<or> (length (sortedSets w) = Suc (depth w) \<and> current w \<noteq> []))
     \<and> (current w = [] \<longrightarrow> next_w w = [])
     \<and> [] \<notin> set (sortedSets w)"

lemma push_level_union:
  assumes "d \<le> length ss"
  shows "(\<Union>i<length (push_level d p ss). F i ` set (push_level d p ss ! i))
       = insert (F d p) (\<Union>i<length ss. F i ` set (ss ! i))"
proof (cases "d < length ss")
  case True
  have "(\<Union>i<length ss. F i ` set (ss[d := ss ! d @ [p]] ! i))
       = insert (F d p) (\<Union>i<length ss. F i ` set (ss ! i))" (is "?L = ?R")
  proof
    show "?L \<subseteq> ?R"
    proof
      fix x assume "x \<in> ?L"
      then obtain i q where i: "i < length ss" and q: "q \<in> set (ss[d := ss ! d @ [p]] ! i)"
        and x: "x = F i q" by auto
      show "x \<in> ?R"
      proof (cases "i = d")
        case True
        with q i have "q = p \<or> q \<in> set (ss ! d)" by auto
        with x True i show ?thesis by auto
      next
        case False
        with q i have "q \<in> set (ss ! i)" by simp
        with x i show ?thesis by auto
      qed
    qed
    show "?R \<subseteq> ?L"
    proof
      fix x assume "x \<in> ?R"
      then consider "x = F d p" | i q where "i < length ss" "q \<in> set (ss ! i)" "x = F i q" by auto
      then show "x \<in> ?L"
      proof cases
        case 1
        with True show ?thesis by (auto simp: nth_list_update intro!: bexI [of _ d])
      next
        case 2
        with True show ?thesis by (auto simp: nth_list_update intro!: bexI [of _ i])
      qed
    qed
  qed
  with True show ?thesis by (simp add: push_level_def)
next
  case False
  with assms have "d = length ss" by simp
  then show ?thesis by (auto simp: push_level_def lessThan_Suc nth_append)
qed

lemma push_level_length: "d \<le> length ss \<Longrightarrow> length (push_level d p ss) = Suc d \<or> length (push_level d p ss) = length ss"
  by (auto simp: push_level_def)

lemma push_level_nonempty: "[] \<notin> set ss \<Longrightarrow> [] \<notin> set (push_level d p ss)"
  by (auto simp: push_level_def set_update_memI dest!: set_update_subset_insert [THEN subsetD])

lemma push_level_ptrs:
  "q \<in> set s \<Longrightarrow> s \<in> set (push_level d p ss) \<Longrightarrow> q = p \<or> (\<exists>s'\<in>set ss. q \<in> set s')"
proof (cases "d < length ss")
  case True
  assume q: "q \<in> set s" and s: "s \<in> set (push_level d p ss)"
  from s True have "s \<in> insert (ss ! d @ [p]) (set ss)"
    using set_update_subset_insert [of ss d] by (auto simp: push_level_def)
  with q True show ?thesis by (auto intro: nth_mem)
next
  case False
  assume "q \<in> set s" and "s \<in> set (push_level d p ss)"
  with False show ?thesis by (auto simp: push_level_def)
qed


lemma filter_not_in_self: "set ms = set xs \<Longrightarrow> filter (\<lambda>x. x \<notin> set ms) xs = []"
  by (simp add: filter_empty_conv)

lemma step_effect:
  assumes ok: "ptrs_ok g w" and sh: "shape w" and c: "current w = p # rest"
    and st: "step rng w = Inr w'"
  shows "ptrs_ok g w'"
    and "shape w'"
    and "edges_w w' = edges_w w - {nodes g ! p} \<times> UNIV"
    and "\<And>v. count_of (numInputs_w w') v
            = count_of (numInputs_w w) v - (if (nodes g ! p, v) \<in> edges_w w then 1 else 0)"
    and "placed g w' = insert (depth w, nodes g ! p) (placed g w)"
    and "queued g w' = (\<lambda>q. (depth w, nodes g ! q)) ` set rest
            \<union> (\<lambda>q. (Suc (depth w), nodes g ! q)) ` set (next_w w)
            \<union> (\<lambda>m. (Suc (depth w), m)) `
                {m. (nodes g ! p, m) \<in> edges_w w \<and> count_of (numInputs_w w) m = 1}"
    and "\<And>m. (nodes g ! p, m) \<in> edges_w w \<Longrightarrow> m \<in> set (nodes g)"
    and "length (sortedSets w') = Suc (depth w)"
proof -
  from ok have ids: "map NodeId (infos w) = nodes g"
    and ptr: "\<And>k q. nodes_w w k = Some q \<Longrightarrow> q < length (nodes g) \<and> nodes g ! q = k"
    and reg: "\<And>k. k \<in> set (nodes g) \<Longrightarrow> nodes_w w k \<noteq> None"
    and rng_ok: "\<And>q. q \<in> set (current w) \<or> q \<in> set (next_w w) \<or> (\<exists>s\<in>set (sortedSets w). q \<in> set s)
           \<Longrightarrow> q < length (nodes g)"
    unfolding ptrs_ok_def by blast+
  from ids have len: "length (infos w) = length (nodes g)" by (metis length_map)
  from rng_ok c have p: "p < length (nodes g)" by simp
  with ids len have idp: "NodeId (infos w ! p) = nodes g ! p" by (metis nth_map)
  define n where "n = nodes g ! p"
  define w1 where "w1 = w\<lparr>current := rest, sortedSets := push_level (depth w) p (sortedSets w)\<rparr>"
  define ms where "ms = range_order rng (Some n) (remdups (bucket (outputs_w w) n))"
  have dms: "distinct ms" unfolding ms_def
    by (metis distinct_remdups mset_eq_imp_distinct_iff range_order_mset)
  have sms: "set ms = set (bucket (outputs_w w) n)" by (simp add: ms_def)
  from st c obtain w2 where v: "visit_all p ms w1 = Inr w2" and w': "w' = advance w2"
    by (auto simp: step_def Let_def w1_def ms_def n_def idp split: sum.splits)
  have p1: "p < length (infos w1)" using p len by (simp add: w1_def)
  have id1: "NodeId (infos w1 ! p) = n" by (simp add: w1_def idp n_def)
  from visit_all_Inr [OF v dms p1, unfolded id1]
  have nn: "\<And>m. m \<in> set ms \<Longrightarrow> nodes_w w m \<noteq> None"
    and bk: "\<And>u. bucket (outputs_w w2) u =
            (if u = n then filter (\<lambda>x. x \<notin> set ms) (bucket (outputs_w w) u) else bucket (outputs_w w) u)"
    and ct: "\<And>v. count_of (numInputs_w w2) v = count_of (numInputs_w w) v - (if v \<in> set ms then 1 else 0)"
    and nx: "next_w w2 = next_w w @ map (\<lambda>m. the (nodes_w w m)) (filter (\<lambda>m. count_of (numInputs_w w) m = 1) ms)"
    and i2: "map NodeId (infos w2) = nodes g"
    and f2: "current w2 = rest" "depth w2 = depth w"
            "sortedSets w2 = push_level (depth w) p (sortedSets w)" "nodes_w w2 = nodes_w w"
    by (simp_all add: w1_def ids)
  have bk': "\<And>u. bucket (outputs_w w2) u = (if u = n then [] else bucket (outputs_w w) u)"
    using bk filter_not_in_self [OF sms] by simp
  have adv: "outputs_w w' = outputs_w w2" "numInputs_w w' = numInputs_w w2" "infos w' = infos w2"
    "nodes_w w' = nodes_w w2" "sortedSets w' = sortedSets w2"
    by (simp_all add: w' advance_def)
  have in_e: "\<And>m. (n, m) \<in> edges_w w \<longleftrightarrow> m \<in> set ms" by (simp add: edges_w_def sms)
  have key: "\<And>m. m \<in> set ms \<Longrightarrow> the (nodes_w w m) < length (nodes g) \<and> nodes g ! the (nodes_w w m) = m"
    using nn ptr by fastforce
  from sh have d: "depth w \<le> length (sortedSets w)" and
    d': "length (sortedSets w) = depth w \<or> length (sortedSets w) = Suc (depth w)"
    and ne: "[] \<notin> set (sortedSets w)"
    by (auto simp: shape_def)
  have l2: "length (sortedSets w2) = Suc (depth w)"
    using d' by (auto simp: f2 push_level_def)

  show "length (sortedSets w') = Suc (depth w)" by (simp add: adv l2)
  show "edges_w w' = edges_w w - {nodes g ! p} \<times> UNIV"
    by (auto simp: edges_w_def adv bk' n_def [symmetric] split: if_splits)
  show "\<And>v. count_of (numInputs_w w') v
            = count_of (numInputs_w w) v - (if (nodes g ! p, v) \<in> edges_w w then 1 else 0)"
    by (simp add: adv ct n_def [symmetric] in_e)
  show "placed g w' = insert (depth w, nodes g ! p) (placed g w)"
    unfolding placed_def adv f2 using push_level_union [OF d, of "\<lambda>i q. (i, nodes g ! q)" p]
    by simp
  show "\<And>m. (nodes g ! p, m) \<in> edges_w w \<Longrightarrow> m \<in> set (nodes g)"
    using key in_e unfolding n_def [symmetric] by (metis nth_mem)
  have nxs: "(\<lambda>q. (Suc (depth w), nodes g ! q)) ` set (next_w w2)
      = (\<lambda>q. (Suc (depth w), nodes g ! q)) ` set (next_w w)
        \<union> (\<lambda>m. (Suc (depth w), m)) ` {m. (n, m) \<in> edges_w w \<and> count_of (numInputs_w w) m = 1}"
  proof -
    let ?S = "{m. (n, m) \<in> edges_w w \<and> count_of (numInputs_w w) m = 1}"
    have "set (next_w w2) = set (next_w w) \<union> (\<lambda>m. the (nodes_w w m)) ` ?S"
      by (auto simp: nx in_e)
    moreover have "(\<lambda>q. (Suc (depth w), nodes g ! q)) ` ((\<lambda>m. the (nodes_w w m)) ` ?S)
        = (\<lambda>m. (Suc (depth w), m)) ` ?S"
      unfolding image_image by (rule image_cong) (simp_all add: in_e key)
    ultimately show ?thesis by (simp add: image_Un)
  qed
  show "queued g w' = (\<lambda>q. (depth w, nodes g ! q)) ` set rest
            \<union> (\<lambda>q. (Suc (depth w), nodes g ! q)) ` set (next_w w)
            \<union> (\<lambda>m. (Suc (depth w), m)) `
                {m. (nodes g ! p, m) \<in> edges_w w \<and> count_of (numInputs_w w) m = 1}"
  proof (cases "rest = []")
    case True
    then have "queued g w' = (\<lambda>q. (Suc (depth w), nodes g ! q)) ` set (next_w w2)"
      by (simp add: queued_def w' advance_def f2)
    with True nxs show ?thesis by (simp add: n_def)
  next
    case False
    then have "queued g w' = (\<lambda>q. (depth w, nodes g ! q)) ` set rest
          \<union> (\<lambda>q. (Suc (depth w), nodes g ! q)) ` set (next_w w2)"
      by (simp add: queued_def w' advance_def f2)
    with nxs show ?thesis by (simp add: n_def Un_assoc)
  qed
  show "shape w'"
  proof (cases "rest = []")
    case True
    then show ?thesis using l2 ne by (simp add: shape_def w' advance_def f2 push_level_nonempty)
  next
    case False
    then show ?thesis using l2 ne by (simp add: shape_def w' advance_def f2 push_level_nonempty)
  qed
  have ptrs2: "\<And>q. q \<in> set (current w2) \<or> q \<in> set (next_w w2) \<or> (\<exists>s\<in>set (sortedSets w2). q \<in> set s)
           \<Longrightarrow> q < length (nodes g)"
  proof -
    fix q assume "q \<in> set (current w2) \<or> q \<in> set (next_w w2) \<or> (\<exists>s\<in>set (sortedSets w2). q \<in> set s)"
    then consider "q \<in> set rest" | "q \<in> set (next_w w)" | m where "m \<in> set ms" "q = the (nodes_w w m)"
      | s where "s \<in> set (push_level (depth w) p (sortedSets w))" "q \<in> set s"
      by (auto simp: f2 nx)
    then show "q < length (nodes g)"
    proof cases
      case 1 then show ?thesis using rng_ok c by simp
    next
      case 2 then show ?thesis using rng_ok by simp
    next
      case 3 then show ?thesis using key by simp
    next
      case 4
      from push_level_ptrs [OF 4(2) 4(1)] show ?thesis using p rng_ok by auto
    qed
  qed
  show "ptrs_ok g w'"
    unfolding ptrs_ok_def
  proof (intro conjI allI impI)
    show "map NodeId (infos w') = nodes g" by (simp add: adv i2)
  next
    fix k q assume "nodes_w w' k = Some q"
    then show "q < length (nodes g)" "nodes g ! q = k" using ptr by (simp_all add: adv f2)
  next
    fix k assume "k \<in> set (nodes g)"
    then show "nodes_w w' k \<noteq> None" using reg by (simp add: adv f2)
  next
    fix q assume "q \<in> set (current w') \<or> q \<in> set (next_w w') \<or> (\<exists>s\<in>set (sortedSets w'). q \<in> set s)"
    then have "q \<in> set (current w2) \<or> q \<in> set (next_w w2) \<or> (\<exists>s\<in>set (sortedSets w2). q \<in> set s)"
      by (auto simp: w' advance_def split: if_splits)
    then show "q < length (nodes g)" by (rule ptrs2)
  qed
qed


subsection \<open>Invariants of the loop\<close>

lemma kahn_invariant:
  assumes "kahn rng w = Inr wz" and "I w"
    and "\<And>w w'. I w \<Longrightarrow> current w \<noteq> [] \<Longrightarrow> step rng w = Inr w' \<Longrightarrow> I w'"
  shows "I wz \<and> current wz = []"
  using assms
proof (induction rng w rule: kahn.induct)
  case (1 rng w)
  show ?case
  proof (cases "current w = []")
    case True
    with "1.prems" show ?thesis by (simp add: kahn.simps)
  next
    case False
    with "1.prems"(1) obtain w' where s: "step rng w = Inr w'" and k: "kahn rng w' = Inr wz"
      by (auto simp: kahn.simps [of rng w] split: sum.splits)
    from "1.prems"(3) [OF "1.prems"(2) False s] have "I w'" .
    from "1.IH" [OF False s k this "1.prems"(3)] show ?thesis .
  qed
qed

lemma kahn_panics:
  assumes "kahn rng w = Inl e" and "I w"
    and "\<And>w w'. I w \<Longrightarrow> current w \<noteq> [] \<Longrightarrow> step rng w = Inr w' \<Longrightarrow> I w'"
  shows "\<exists>w1. I w1 \<and> current w1 \<noteq> [] \<and> step rng w1 = Inl e"
  using assms
proof (induction rng w rule: kahn.induct)
  case (1 rng w)
  from "1.prems"(1) have ne: "current w \<noteq> []" by (auto simp: kahn.simps [of rng w])
  show ?case
  proof (cases "step rng w")
    case (Inl e')
    with "1.prems"(1) ne have "e' = e" by (simp add: kahn.simps [of rng w])
    with Inl ne "1.prems"(2) show ?thesis by blast
  next
    case (Inr w')
    with "1.prems"(1) ne have k: "kahn rng w' = Inl e" by (simp add: kahn.simps [of rng w])
    from "1.prems"(3) [OF "1.prems"(2) ne Inr] have "I w'" .
    from "1.IH" [OF ne Inr k this "1.prems"(3)] show ?thesis .
  qed
qed

definition graph_edges :: "'k DAG \<Rightarrow> ('k \<times> 'k) set" where
  "graph_edges g = {(u, v). v \<in> set (bucket (outputs g) u)}"

definition count_inv :: "'k DAG \<Rightarrow> bool" where
  "count_inv g \<longleftrightarrow> (\<forall>n. count_of (numInputs g) n = int (indegree g n))"

definition kinv :: "'k DAG \<Rightarrow> 'k work \<Rightarrow> bool" where
  "kinv g w \<longleftrightarrow>
     ptrs_ok g w \<and> shape w
     \<and> (\<forall>v. count_of (numInputs_w w) v = int (card {u. (u, v) \<in> edges_w w}))
     \<and> edges_w w \<subseteq> graph_edges g
     \<and> (\<forall>u v. (u, v) \<in> graph_edges g \<longrightarrow> ((u, v) \<notin> edges_w w \<longleftrightarrow> u \<in> snd ` placed g w))
     \<and> (\<forall>j y x. (j, y) \<in> placed g w \<union> queued g w \<longrightarrow> (x, y) \<in> graph_edges g
            \<longrightarrow> (\<exists>i<j. (i, x) \<in> placed g w))
     \<and> (\<forall>i j x. (i, x) \<in> placed g w \<union> queued g w \<longrightarrow> (j, x) \<in> placed g w \<union> queued g w \<longrightarrow> i = j)
     \<and> (\<forall>y. count_of (numInputs_w w) y = 0 \<longrightarrow> (y \<in> set (nodes g) \<or> (\<exists>x. (x, y) \<in> graph_edges g))
            \<longrightarrow> y \<in> snd ` (placed g w \<union> queued g w))"

lemma bucket_sources: "bucket outs u \<noteq> [] \<Longrightarrow> u \<in> fst ` set outs"
  by (cases "map_of outs u") (auto simp: bucket_def dest!: map_of_SomeD intro: rev_image_eqI)

lemma edge_source: "v \<in> set (bucket outs u) \<Longrightarrow> u \<in> fst ` set outs"
  by (rule bucket_sources) auto

lemma finite_sources: "finite {u. (u, v) \<in> edges_w w}"
proof (rule finite_subset)
  show "{u. (u, v) \<in> edges_w w} \<subseteq> fst ` set (outputs_w w)"
    by (auto simp: edges_w_def dest: edge_source)
qed simp

lemma indegree_card: "indegree g v = card {u. (u, v) \<in> graph_edges g}"
proof -
  let ?xs = "filter (\<lambda>k. v \<in> set (bucket (outputs g) k)) (keys_of (outputs g))"
  have "{u. (u, v) \<in> graph_edges g} = set ?xs"
    by (auto simp: graph_edges_def dest: edge_source)
  moreover have "distinct ?xs"
    by (simp add: keys_of_def)
  then have "card (set ?xs) = length ?xs" by (rule distinct_card)
  ultimately show ?thesis by (simp only: indegree_def)
qed

lemma init_work_edges: "edges_w (init_work g) = graph_edges g"
  by (simp add: edges_w_def graph_edges_def)

lemma kinv_init:
  assumes "count_inv g"
  shows "kinv g (init_work g)"
proof -
  let ?w = "init_work g"
  have cnt: "\<And>v. count_of (numInputs g) v = int (card {u. (u, v) \<in> graph_edges g})"
    using assms by (simp add: count_inv_def indegree_card)
  have pl: "placed g ?w = {}" by (simp add: placed_def)
  have qu: "queued g ?w = (\<lambda>p. (0, nodes g ! p)) `
      {p. p < length (nodes g) \<and> count_of (numInputs g) (nodes g ! p) = 0}"
    by (auto simp: queued_def init_work_current)
  have fin: "\<And>v. finite {u. (u, v) \<in> graph_edges g}"
    using finite_sources [of _ ?w] by (simp add: init_work_edges)
  have zero: "\<And>x y. count_of (numInputs g) y = 0 \<Longrightarrow> (x, y) \<notin> graph_edges g"
  proof
    fix x y assume "count_of (numInputs g) y = 0" and "(x, y) \<in> graph_edges g"
    then have "card {u. (u, y) \<in> graph_edges g} = 0" and "x \<in> {u. (u, y) \<in> graph_edges g}"
      using cnt [of y] by simp_all
    with fin [of y] show False by simp
  qed
  show ?thesis
    unfolding kinv_def
  proof (intro conjI allI impI)
    show "ptrs_ok g ?w" by (rule init_work_ptrs_ok)
    show "shape ?w" by (simp add: shape_def)
    show "\<And>v. count_of (numInputs_w ?w) v = int (card {u. (u, v) \<in> edges_w ?w})"
      by (simp add: init_work_edges cnt)
    show "edges_w ?w \<subseteq> graph_edges g" by (simp add: init_work_edges)
    show "\<And>u v. (u, v) \<in> graph_edges g \<Longrightarrow> ((u, v) \<notin> edges_w ?w) = (u \<in> snd ` placed g ?w)"
      by (simp add: init_work_edges pl)
  next
    fix j y x assume "(j, y) \<in> placed g ?w \<union> queued g ?w" and e: "(x, y) \<in> graph_edges g"
    then have "count_of (numInputs g) y = 0" by (auto simp: pl qu)
    with zero e show "\<exists>i<j. (i, x) \<in> placed g ?w" by blast
  next
    fix i j x assume "(i, x) \<in> placed g ?w \<union> queued g ?w" "(j, x) \<in> placed g ?w \<union> queued g ?w"
    then show "i = j" by (auto simp: pl qu)
  next
    fix y assume c: "count_of (numInputs_w ?w) y = 0"
      and "y \<in> set (nodes g) \<or> (\<exists>x. (x, y) \<in> graph_edges g)"
    with zero have "y \<in> set (nodes g)" by auto
    then obtain p where "p < length (nodes g)" "nodes g ! p = y" by (auto simp: in_set_conv_nth)
    with c show "y \<in> snd ` (placed g ?w \<union> queued g ?w)" by (force simp: qu)
  qed
qed


lemma placed_index: "(i, x) \<in> placed g w \<Longrightarrow> i < length (sortedSets w)"
  by (auto simp: placed_def)

lemma kinv_step:
  assumes inv: "kinv g w" and ne: "current w \<noteq> []" and st: "step rng w = Inr w'"
  shows "kinv g w'"
proof -
  from ne obtain p rest where c: "current w = p # rest" by (cases "current w") auto
  define n where "n = nodes g ! p"
  define d where "d = depth w"
  define New where "New = (\<lambda>m. (Suc d, m)) ` {m. (n, m) \<in> edges_w w \<and> count_of (numInputs_w w) m = 1}"
  from inv have ok: "ptrs_ok g w" and sh: "shape w"
    and K1: "\<And>v. count_of (numInputs_w w) v = int (card {u. (u, v) \<in> edges_w w})"
    and K2: "edges_w w \<subseteq> graph_edges g"
    and K3: "\<And>u v. (u, v) \<in> graph_edges g \<Longrightarrow> ((u, v) \<notin> edges_w w \<longleftrightarrow> u \<in> snd ` placed g w)"
    and K5: "\<And>j y x. (j, y) \<in> placed g w \<union> queued g w \<Longrightarrow> (x, y) \<in> graph_edges g
            \<Longrightarrow> \<exists>i<j. (i, x) \<in> placed g w"
    and K6: "\<And>i j x. (i, x) \<in> placed g w \<union> queued g w \<Longrightarrow> (j, x) \<in> placed g w \<union> queued g w \<Longrightarrow> i = j"
    and K7: "\<And>y. count_of (numInputs_w w) y = 0 \<Longrightarrow> y \<in> set (nodes g) \<or> (\<exists>x. (x, y) \<in> graph_edges g)
            \<Longrightarrow> y \<in> snd ` (placed g w \<union> queued g w)"
    unfolding kinv_def by blast+
  note eff = step_effect [OF ok sh c st, folded n_def d_def]
  have E': "edges_w w' = edges_w w - {n} \<times> UNIV" by (rule eff(3))
  have C': "\<And>v. count_of (numInputs_w w') v
            = count_of (numInputs_w w) v - (if (n, v) \<in> edges_w w then 1 else 0)" by (rule eff(4))
  have P': "placed g w' = insert (d, n) (placed g w)" by (rule eff(5))
  have lev: "placed g w \<union> queued g w
      = placed g w \<union> {(d, n)} \<union> (\<lambda>q. (d, nodes g ! q)) ` set rest
          \<union> (\<lambda>q. (Suc d, nodes g ! q)) ` set (next_w w)"
    by (auto simp: queued_def c n_def d_def)
  have lev': "placed g w' \<union> queued g w' = placed g w \<union> queued g w \<union> New"
    unfolding lev P' eff(6) New_def by blast
  have len': "length (sortedSets w') = Suc d" by (rule eff(8))
  have fresh: "\<And>j m. (n, m) \<in> edges_w w \<Longrightarrow> (j, m) \<notin> placed g w \<union> queued g w"
  proof
    fix j m assume e: "(n, m) \<in> edges_w w" and "(j, m) \<in> placed g w \<union> queued g w"
    with K5 [of j m n] K2 have "n \<in> snd ` placed g w" by force
    with K3 [of n m] K2 e show False by blast
  qed
  have K1': "\<And>v. count_of (numInputs_w w') v = int (card {u. (u, v) \<in> edges_w w'})"
  proof -
    fix v
    have s: "{u. (u, v) \<in> edges_w w'} = {u. (u, v) \<in> edges_w w} - {n}" by (auto simp: E')
    show "count_of (numInputs_w w') v = int (card {u. (u, v) \<in> edges_w w'})"
    proof (cases "(n, v) \<in> edges_w w")
      case True
      then have "n \<in> {u. (u, v) \<in> edges_w w}" by simp
      with finite_sources [of v w] have "card ({u. (u, v) \<in> edges_w w} - {n}) = card {u. (u, v) \<in> edges_w w} - 1"
        and "0 < card {u. (u, v) \<in> edges_w w}"
        by (auto simp: card_gt_0_iff)
      with True show ?thesis by (simp add: C' K1 s)
    next
      case False
      then have "{u. (u, v) \<in> edges_w w} - {n} = {u. (u, v) \<in> edges_w w}" by auto
      with False show ?thesis by (simp add: C' K1 s)
    qed
  qed
  have K3': "\<And>u v. (u, v) \<in> graph_edges g \<Longrightarrow> ((u, v) \<notin> edges_w w' \<longleftrightarrow> u \<in> snd ` placed g w')"
    using K3 by (auto simp: E' P')
  show ?thesis
    unfolding kinv_def
  proof (intro conjI allI impI)
    show "ptrs_ok g w'" by (rule eff(1))
    show "shape w'" by (rule eff(2))
    show "\<And>v. count_of (numInputs_w w') v = int (card {u. (u, v) \<in> edges_w w'})" by (rule K1')
    show "edges_w w' \<subseteq> graph_edges g" using K2 by (auto simp: E')
    show "\<And>u v. (u, v) \<in> graph_edges g \<Longrightarrow> ((u, v) \<notin> edges_w w') = (u \<in> snd ` placed g w')"
      by (rule K3')
  next
    fix j y x assume jy: "(j, y) \<in> placed g w' \<union> queued g w'" and e: "(x, y) \<in> graph_edges g"
    from jy lev' consider "(j, y) \<in> placed g w \<union> queued g w" | "(j, y) \<in> New" by blast
    then show "\<exists>i<j. (i, x) \<in> placed g w'"
    proof cases
      case 1
      from K5 [OF 1 e] show ?thesis by (auto simp: P')
    next
      case 2
      then have j: "j = Suc d" and ny: "(n, y) \<in> edges_w w" and c1: "count_of (numInputs_w w) y = 1"
        by (auto simp: New_def)
      then have "count_of (numInputs_w w') y = 0" by (simp add: C')
      with K1' [of y] finite_sources [of y w'] have "{u. (u, y) \<in> edges_w w'} = {}" by simp
      then have "(x, y) \<notin> edges_w w'" by blast
      with K3' [OF e] obtain i where i: "(i, x) \<in> placed g w'" by force
      from placed_index [OF i] len' j have "i < j" by simp
      with i show ?thesis by blast
    qed
  next
    fix i j x assume a: "(i, x) \<in> placed g w' \<union> queued g w'" and b: "(j, x) \<in> placed g w' \<union> queued g w'"
    from a lev' consider "(i, x) \<in> placed g w \<union> queued g w" | "(i, x) \<in> New" by blast
    then show "i = j"
    proof cases
      case 1
      from b lev' consider "(j, x) \<in> placed g w \<union> queued g w" | "(j, x) \<in> New" by blast
      then show ?thesis
      proof cases
        case 1
        with \<open>(i, x) \<in> placed g w \<union> queued g w\<close> K6 show ?thesis by blast
      next
        case 2
        then have "(n, x) \<in> edges_w w" by (auto simp: New_def)
        from fresh [OF this] 1 show ?thesis by blast
      qed
    next
      case 2
      then have i: "i = Suc d" and nx: "(n, x) \<in> edges_w w" by (auto simp: New_def)
      from b lev' consider "(j, x) \<in> placed g w \<union> queued g w" | "(j, x) \<in> New" by blast
      then show ?thesis
      proof cases
        case 1
        with fresh [OF nx] show ?thesis by blast
      next
        case 2
        with i show ?thesis by (auto simp: New_def)
      qed
    qed
  next
    fix y assume z: "count_of (numInputs_w w') y = 0"
      and r: "y \<in> set (nodes g) \<or> (\<exists>x. (x, y) \<in> graph_edges g)"
    show "y \<in> snd ` (placed g w' \<union> queued g w')"
    proof (cases "(n, y) \<in> edges_w w")
      case True
      with z have "count_of (numInputs_w w) y = 1" by (simp add: C')
      with True have "(Suc d, y) \<in> New" by (simp add: New_def)
      then show ?thesis unfolding lev' by force
    next
      case False
      with z have "count_of (numInputs_w w) y = 0" by (simp add: C')
      from K7 [OF this r] show ?thesis unfolding lev' by force
    qed
  qed
qed


subsection \<open>A successful sort without options\<close>

definition in_level :: "'k Topology \<Rightarrow> nat \<Rightarrow> 'k \<Rightarrow> bool" where
  "in_level topo i k \<longleftrightarrow> i < length topo \<and> k \<in> NodeId ` set (topo ! i)"

lemma scan_level_unscoped: "scan_level g wd wod v (None, acc) = Inr (None, acc @ v)"
  by (induction v arbitrary: acc) (simp_all add: include_node_def)

lemma scope_levels_unscoped:
  "scope_levels g wd wod vs None r
     = Inr (rev (map (\<lambda>v. if v = [] then [] else sort_key NodeId v) vs) @ r)"
  by (induction vs arbitrary: r) (simp_all add: scan_level_unscoped)

lemma resolve_scope_unscoped:
  "resolve_scope g options None levels
     = Returns (Some (filter (\<lambda>ns. ns \<noteq> []) (map (\<lambda>v. if v = [] then [] else sort_key NodeId v) levels))) None"
  by (simp add: resolve_scope_def scope_levels_unscoped rev_map)

lemma sort_key_Nil_iff: "sort_key f xs = [] \<longleftrightarrow> xs = []"
  by (metis length_0_conv length_sort)

lemma unscoped_levels:
  assumes "[] \<notin> set levels"
  shows "filter (\<lambda>ns. ns \<noteq> []) (map (\<lambda>v. if v = [] then [] else sort_key NodeId v) levels)
       = map (sort_key NodeId) levels"
proof -
  have eq: "map (\<lambda>v. if v = [] then [] else sort_key NodeId v) levels = map (sort_key NodeId) levels"
    by (rule map_cong) auto
  show ?thesis unfolding eq using assms by (auto simp: filter_id_conv sort_key_Nil_iff)
qed

lemma sort_options_Nil [simp]:
  "sort_options [] = \<lparr>so_Only = [], so_WithDependencies = False, so_WithoutDependencies = False\<rparr>"
  by (simp add: sort_options_def)

lemma Sort_unscoped_success:
  assumes "Sort rng g [] = Returns t None"
  shows "\<exists>wz. first_undefined rng g = None \<and> kahn rng (init_work g) = Inr wz
           \<and> \<not> 0 < numUnresolvedEdges wz
           \<and> t = Some (filter (\<lambda>ns. ns \<noteq> [])
                   (map (\<lambda>v. if v = [] then [] else sort_key NodeId v) (topology_of wz)))"
  using assms
  by (auto simp: Sort_unfold level_and_scope_def only_of_def resolve_scope_unscoped
           split: option.splits sum.splits if_splits)

lemma placed_in_level:
  assumes "ptrs_ok g w" and "[] \<notin> set (sortedSets w)"
  shows "in_level (map (sort_key NodeId) (topology_of w)) i k \<longleftrightarrow> (i, k) \<in> placed g w"
proof -
  from assms(1) have ids: "map NodeId (infos w) = nodes g"
    and rng_ok: "\<And>q s. s \<in> set (sortedSets w) \<Longrightarrow> q \<in> set s \<Longrightarrow> q < length (nodes g)"
    unfolding ptrs_ok_def by blast+
  have key: "\<And>q s. s \<in> set (sortedSets w) \<Longrightarrow> q \<in> set s \<Longrightarrow> NodeId (infos w ! q) = nodes g ! q"
    using rng_ok ids by (metis length_map nth_map)
  show ?thesis
  proof (cases "i < length (sortedSets w)")
    case True
    then have "sortedSets w ! i \<in> set (sortedSets w)" by simp
    with key have "(\<lambda>q. NodeId (infos w ! q)) ` set (sortedSets w ! i) = (\<lambda>q. nodes g ! q) ` set (sortedSets w ! i)"
      by (intro image_cong) auto
    with True show ?thesis
      by (auto simp: in_level_def topology_of_def placed_def image_image)
  next
    case False
    then show ?thesis by (auto simp: in_level_def topology_of_def placed_def)
  qed
qed

lemma count_of_absent: "k \<notin> fst ` set ni \<Longrightarrow> count_of ni k = 0"
  using map_of_eq_None_iff [of ni k] by (simp add: count_of_def)

lemma sum_list_nonneg_le0:
  fixes f :: "'a \<Rightarrow> int"
  shows "(\<forall>x\<in>set xs. 0 \<le> f x) \<Longrightarrow> sum_list (map f xs) \<le> 0 \<Longrightarrow> \<forall>x\<in>set xs. f x = 0"
proof (induction xs)
  case Nil
  then show ?case by simp
next
  case (Cons a xs)
  then have "0 \<le> sum_list (map f xs)" by (auto intro: sum_list_nonneg)
  with Cons show ?case by auto
qed

lemma resolved_counts:
  assumes "\<And>v. 0 \<le> count_of (numInputs_w w) v" and "\<not> 0 < numUnresolvedEdges w"
  shows "count_of (numInputs_w w) v = 0"
proof (cases "v \<in> fst ` set (numInputs_w w)")
  case True
  from assms have "\<forall>x\<in>set (keys_of (numInputs_w w)). count_of (numInputs_w w) x = 0"
    by (intro sum_list_nonneg_le0) (auto simp: numUnresolvedEdges_def)
  with True show ?thesis by force
next
  case False
  then show ?thesis by (rule count_of_absent)
qed

definition uncounted_graph :: "string DAG" where
  "uncounted_graph = snd (RemoveEdge ''b'' ''b'' (snd (AddEdge ''a'' ''b'' (New [Nodes [''a'', ''b'']]))))"

lemma count_invI:
  assumes "list_all (\<lambda>n. count_of (numInputs g) n = int (indegree g n))
             (keys_of (numInputs g) @ concat (map snd (outputs g)))"
  shows "count_inv g"
  unfolding count_inv_def
proof
  fix n
  show "count_of (numInputs g) n = int (indegree g n)"
  proof (cases "n \<in> fst ` set (numInputs g) \<or> n \<in> \<Union>(set ` snd ` set (outputs g))")
    case True
    with assms show ?thesis by (auto simp: list_all_iff)
  next
    case False
    then have "count_of (numInputs g) n = 0" by (simp add: count_of_absent)
    moreover from False have "\<And>k. n \<notin> set (bucket (outputs g) k)"
      using bucket_subset [of "outputs g"] by blast
    then have "indegree g n = 0" by (simp add: indegree_def)
    ultimately show ?thesis by simp
  qed
qed

text \<open>
  Level soundness on a store with consistent counts. Let the stored count of every key be
  the number of edges of the store that point to it (\<open>count_inv\<close>). If \<open>Sort\<close> without
  options returns a nil error, then for every edge \<open>(A, B)\<close> of the store, \<open>A\<close> and \<open>B\<close> are
  both in the Topology and every level that holds \<open>A\<close> comes strictly before every level
  that holds \<open>B\<close>. This holds for every order in which the maps are ranged over.
\<close>

theorem Sort_level_sound:
  assumes ci: "count_inv g" and ok: "Sort rng g [] = Returns t None"
    and e: "B \<in> set (bucket (outputs g) A)"
  shows "\<exists>topo. t = Some topo \<and> (\<exists>i. in_level topo i A) \<and> (\<exists>j. in_level topo j B)
           \<and> (\<forall>i j. in_level topo i A \<longrightarrow> in_level topo j B \<longrightarrow> i < j)"
proof -
  from Sort_unscoped_success [OF ok] obtain wz where k: "kahn rng (init_work g) = Inr wz"
    and u: "\<not> 0 < numUnresolvedEdges wz"
    and t: "t = Some (filter (\<lambda>ns. ns \<noteq> [])
                   (map (\<lambda>v. if v = [] then [] else sort_key NodeId v) (topology_of wz)))"
    by blast
  have "kinv g wz \<and> current wz = []"
    by (rule kahn_invariant [where I = "kinv g", OF k kinv_init [OF ci]]) (rule kinv_step)
  then have inv: "kinv g wz" and cur: "current wz = []" by blast+
  from inv have pok: "ptrs_ok g wz" and sh: "shape wz"
    and K1: "\<And>v. count_of (numInputs_w wz) v = int (card {u. (u, v) \<in> edges_w wz})"
    and K3: "\<And>u v. (u, v) \<in> graph_edges g \<Longrightarrow> ((u, v) \<notin> edges_w wz \<longleftrightarrow> u \<in> snd ` placed g wz)"
    and K5: "\<And>j y x. (j, y) \<in> placed g wz \<union> queued g wz \<Longrightarrow> (x, y) \<in> graph_edges g
            \<Longrightarrow> \<exists>i<j. (i, x) \<in> placed g wz"
    and K6: "\<And>i j x. (i, x) \<in> placed g wz \<union> queued g wz \<Longrightarrow> (j, x) \<in> placed g wz \<union> queued g wz \<Longrightarrow> i = j"
    and K7: "\<And>y. count_of (numInputs_w wz) y = 0 \<Longrightarrow> y \<in> set (nodes g) \<or> (\<exists>x. (x, y) \<in> graph_edges g)
            \<Longrightarrow> y \<in> snd ` (placed g wz \<union> queued g wz)"
    unfolding kinv_def by blast+
  from sh cur have ne: "[] \<notin> set (sortedSets wz)" and q: "queued g wz = {}"
    by (auto simp: shape_def queued_def)
  define topo where "topo = map (sort_key NodeId) (topology_of wz)"
  have "[] \<notin> set (topology_of wz)" using ne by (auto simp: topology_of_def)
  with t have t': "t = Some topo" by (simp add: unscoped_levels topo_def)
  have lv: "\<And>i k. in_level topo i k \<longleftrightarrow> (i, k) \<in> placed g wz"
    unfolding topo_def by (rule placed_in_level [OF pok ne])
  have zero: "\<And>v. count_of (numInputs_w wz) v = 0"
    by (rule resolved_counts [OF _ u]) (simp add: K1)
  have ab: "(A, B) \<in> graph_edges g" using e by (simp add: graph_edges_def)
  have "{u. (u, B) \<in> edges_w wz} = {}"
    using zero [of B] K1 [of B] finite_sources [of B wz] by simp
  then have "(A, B) \<notin> edges_w wz" by blast
  with K3 [OF ab] obtain i where i: "(i, A) \<in> placed g wz" by force
  from K7 [OF zero [of B]] ab q obtain j where j: "(j, B) \<in> placed g wz" by force
  have "\<And>i j. (i, A) \<in> placed g wz \<Longrightarrow> (j, B) \<in> placed g wz \<Longrightarrow> i < j"
  proof -
    fix i j assume a: "(i, A) \<in> placed g wz" and b: "(j, B) \<in> placed g wz"
    from K5 [of j B A] b ab obtain i' where "i' < j" "(i', A) \<in> placed g wz" by blast
    with K6 [of i A i'] a show "i < j" by simp
  qed
  with i j t' show ?thesis by (auto simp: lv)
qed

theorem Sort_level_sound_witness:
  "count_inv scenario1
   \<and> Sort list_order scenario1 [] = Returns (Some
        [[\<lparr>NodeId = ''cache'', ParentIds = [], ChildIds = [''api'', ''web'']\<rparr>,
          \<lparr>NodeId = ''net'', ParentIds = [], ChildIds = [''mesh'', ''db'', ''api'', ''web'']\<rparr>],
         [\<lparr>NodeId = ''db'', ParentIds = [''net''], ChildIds = [''api'']\<rparr>,
          \<lparr>NodeId = ''mesh'', ParentIds = [''net''], ChildIds = []\<rparr>],
         [\<lparr>NodeId = ''api'', ParentIds = [''cache'', ''net'', ''db''], ChildIds = [''web'']\<rparr>],
         [\<lparr>NodeId = ''web'', ParentIds = [''cache'', ''net'', ''api''], ChildIds = []\<rparr>]]) None
   \<and> ''db'' \<in> set (bucket (outputs scenario1) ''net'')
   \<and> (\<exists>topo. Sort list_order scenario1 [] = Returns (Some topo) None
         \<and> (\<exists>i. in_level topo i ''net'') \<and> (\<exists>j. in_level topo j ''db'')
         \<and> (\<forall>i j. in_level topo i ''net'' \<longrightarrow> in_level topo j ''db'' \<longrightarrow> i < j))"
proof -
  have a: "count_inv scenario1" by (rule count_invI) code_simp
  have b: "Sort list_order scenario1 [] = Returns (Some
        [[\<lparr>NodeId = ''cache'', ParentIds = [], ChildIds = [''api'', ''web'']\<rparr>,
          \<lparr>NodeId = ''net'', ParentIds = [], ChildIds = [''mesh'', ''db'', ''api'', ''web'']\<rparr>],
         [\<lparr>NodeId = ''db'', ParentIds = [''net''], ChildIds = [''api'']\<rparr>,
          \<lparr>NodeId = ''mesh'', ParentIds = [''net''], ChildIds = []\<rparr>],
         [\<lparr>NodeId = ''api'', ParentIds = [''cache'', ''net'', ''db''], ChildIds = [''web'']\<rparr>],
         [\<lparr>NodeId = ''web'', ParentIds = [''cache'', ''net'', ''api''], ChildIds = []\<rparr>]]) None"
    by code_simp
  have c: "''db'' \<in> set (bucket (outputs scenario1) ''net'')" by code_simp
  from Sort_level_sound [OF a b c] a b c show ?thesis by simp
qed

text \<open>
  C1. The claim: whenever \<open>Sort\<close> without options returns a nil error, every edge \<open>(A, B)\<close>
  of the graph has \<open>A\<close> in a level of strictly smaller index than \<open>B\<close>. \<open>Sort\<close> levels by the
  stored counters, never by the edges, and \<open>RemoveEdge\<close> decrements the counter of its
  target also when the edge is absent. After \<open>AddEdge(a, b)\<close> and \<open>RemoveEdge(b, b)\<close> on the
  nodes \<open>a\<close>, \<open>b\<close> the store holds the edge \<open>(a, b)\<close> and the count 0 for \<open>b\<close>, and \<open>Sort\<close>
  returns the single level \<open>a, b\<close> with a nil error: \<open>a\<close> and \<open>b\<close> are both in level 0.
\<close>

theorem Sort_level_unsound_counts:
  "edges uncounted_graph = [(''a'', ''b'')]
   \<and> Sort list_order uncounted_graph []
       = Returns (Some [[\<lparr>NodeId = ''a'', ParentIds = [], ChildIds = [''b'']\<rparr>,
                         \<lparr>NodeId = ''b'', ParentIds = [''a''], ChildIds = []\<rparr>]]) None
   \<and> in_level [[\<lparr>NodeId = ''a'', ParentIds = [], ChildIds = [''b'']\<rparr>,
                  \<lparr>NodeId = ''b'', ParentIds = [''a''], ChildIds = []\<rparr>]] 0 ''a''
   \<and> in_level [[\<lparr>NodeId = ''a'', ParentIds = [], ChildIds = [''b'']\<rparr>,
                  \<lparr>NodeId = ''b'', ParentIds = [''a''], ChildIds = []\<rparr>]] 0 ''b''"
  by code_simp

subsection \<open>Panics\<close>

lemma step_Inl:
  assumes "step rng w = Inl e"
  shows "e = NilPointer \<and> (\<exists>p rest m. current w = p # rest
           \<and> m \<in> set (bucket (outputs_w w) (NodeId (infos w ! p))) \<and> nodes_w w m = None)"
proof (cases "current w")
  case Nil
  with assms show ?thesis by (simp add: step_def)
next
  case (Cons p rest)
  with assms obtain ms w1 where "visit_all p ms w1 = Inl e"
    and "set ms = set (bucket (outputs_w w) (NodeId (infos w ! p)))" and "nodes_w w1 = nodes_w w"
    by (auto simp: step_def Let_def split: sum.splits)
  with visit_all_Inl [of p ms w1 e] Cons show ?thesis by auto
qed

lemma deref_all_Inl:
  "deref_all w ks = Inl e \<Longrightarrow> e = NilPointer \<and> (\<exists>k\<in>set ks. nodes_w w k = None)"
  by (induction ks arbitrary: e) (auto split: option.splits sum.splits)

lemma deref_all_Inr:
  "deref_all w ks = Inr ids \<Longrightarrow> ids = map (\<lambda>k. NodeId (infos w ! the (nodes_w w k))) ks"
  by (induction ks arbitrary: ids) (auto split: option.splits sum.splits)

lemma deref_all_ids:
  assumes "ptrs_ok g w" and "deref_all w ks = Inr ids"
  shows "ids = ks"
proof -
  from assms(1) have ids: "map NodeId (infos w) = nodes g"
    and ptr: "\<And>k q. nodes_w w k = Some q \<Longrightarrow> q < length (nodes g) \<and> nodes g ! q = k"
    unfolding ptrs_ok_def by blast+
  have key: "\<And>k q. nodes_w w k = Some q \<Longrightarrow> NodeId (infos w ! q) = k"
    using ptr ids by (metis length_map nth_map)
  from assms(2) show ?thesis
    by (induction ks arbitrary: ids) (auto split: option.splits sum.splits simp: key)
qed

lemma sum_list_pos_ex:
  fixes f :: "'a \<Rightarrow> int"
  shows "0 < sum_list (map f xs) \<Longrightarrow> \<exists>x\<in>set xs. 0 < f x"
proof (induction xs)
  case Nil
  then show ?case by simp
next
  case (Cons a xs)
  then show ?case by (cases "0 < f a") auto
qed

lemma count_present: "count_of ni k \<noteq> 0 \<Longrightarrow> k \<in> set (keys_of ni)"
  using count_of_absent [of k ni] by auto

lemma resolve_scope_returns: "\<exists>t e. resolve_scope g options only levels = Returns t e"
  by (simp add: resolve_scope_def split: sum.splits)

lemma kinv_kahn:
  assumes "count_inv g" and "kahn rng (init_work g) = Inr wz"
  shows "kinv g wz \<and> current wz = []"
  by (rule kahn_invariant [where I = "kinv g", OF assms(2) kinv_init [OF assms(1)]]) (rule kinv_step)

lemma cycle_seed_found:
  assumes inv: "kinv g wz" and cur: "current wz = []" and un: "0 < numUnresolvedEdges wz"
    and reg: "\<forall>k\<in>fst ` set (outputs g). k \<in> set (nodes g)"
  shows "cycle_seed wz \<noteq> Inl InvalidState"
proof
  assume bad: "cycle_seed wz = Inl InvalidState"
  from inv have pok: "ptrs_ok g wz" and sh: "shape wz"
    and K1: "\<And>v. count_of (numInputs_w wz) v = int (card {u. (u, v) \<in> edges_w wz})"
    and K2: "edges_w wz \<subseteq> graph_edges g"
    and K3: "\<And>u v. (u, v) \<in> graph_edges g \<Longrightarrow> ((u, v) \<notin> edges_w wz \<longleftrightarrow> u \<in> snd ` placed g wz)"
    and K7: "\<And>y. count_of (numInputs_w wz) y = 0 \<Longrightarrow> y \<in> set (nodes g) \<or> (\<exists>x. (x, y) \<in> graph_edges g)
            \<Longrightarrow> y \<in> snd ` (placed g wz \<union> queued g wz)"
    unfolding kinv_def by blast+
  from sh cur have q: "queued g wz = {}" by (auto simp: shape_def queued_def)
  from bad obtain ids where d: "deref_all wz (invalid_keys wz) = Inr ids"
    and f: "find (\<lambda>k. bucket (outputs_w wz) k \<noteq> []) (sort ids) = None"
    using deref_all_Inl [of wz "invalid_keys wz" InvalidState]
    by (auto simp: cycle_seed_def split: sum.splits option.splits)
  from deref_all_ids [OF pok d] have ids: "ids = invalid_keys wz" .
  from sum_list_pos_ex [OF un [unfolded numUnresolvedEdges_def]]
  obtain v where "0 < count_of (numInputs_w wz) v" by blast
  with K1 [of v] have "card {u. (u, v) \<in> edges_w wz} \<noteq> 0" by simp
  then obtain u where uv: "(u, v) \<in> edges_w wz" by (cases "{u. (u, v) \<in> edges_w wz} = {}") auto
  with K2 have uv0: "(u, v) \<in> graph_edges g" by blast
  then have "u \<in> fst ` set (outputs g)" by (auto simp: graph_edges_def dest: edge_source)
  with reg have ur: "u \<in> set (nodes g)" by blast
  from K3 [OF uv0] uv have np: "u \<notin> snd ` placed g wz" by blast
  have "count_of (numInputs_w wz) u \<noteq> 0"
  proof
    assume "count_of (numInputs_w wz) u = 0"
    from K7 [OF this] ur q np show False by simp
  qed
  with K1 [of u] have pos: "0 < count_of (numInputs_w wz) u" by simp
  then have "u \<in> set (invalid_keys wz)" using count_present [of "numInputs_w wz" u]
    by (simp add: invalid_keys_def)
  moreover from uv have "bucket (outputs_w wz) u \<noteq> []" by (auto simp: edges_w_def)
  ultimately show False using f by (auto simp: find_None_iff ids)
qed

lemma first_undefined_None_reg:
  "first_undefined rng g = None \<Longrightarrow> \<forall>k\<in>fst ` set (outputs g). k \<in> set (nodes g)"
  by (simp add: first_undefined_None)



definition unregistered_target_graph :: "string DAG" where
  "unregistered_target_graph = snd (AddEdge ''a'' ''b'' (New [Nodes [''a'']]))"

lemma graph_edges_set: "graph_edges g = set (edges g)"
proof -
  have "(a, b) \<in> set (edges g) \<longleftrightarrow> b \<in> set (bucket (outputs g) a)" for a b
  proof
    assume "(a, b) \<in> set (edges g)"
    then show "b \<in> set (bucket (outputs g) a)" by (auto simp: edges_def)
  next
    assume b: "b \<in> set (bucket (outputs g) a)"
    then have "a \<in> set (keys_of (outputs g))" by (auto dest: edge_source)
    with b show "(a, b) \<in> set (edges g)" unfolding edges_def by (auto intro!: bexI [of _ a])
  qed
  then show ?thesis by (auto simp: graph_edges_def)
qed

text \<open>
  Which panics are left on a store with consistent counts. Let the stored count of every
  key be the number of edges of the store that point to it. Then \<open>Sort\<close> never reaches its
  panic "invalid state: no nodes have remaining edges": when leveling leaves a positive
  count, some key with a positive count still has an outgoing edge in the working copy. If
  moreover the target of every edge is a registered node, \<open>Sort\<close> returns a pair
  (Topology, error), whatever the options and the order of \<open>range\<close> are.
\<close>

theorem Sort_returns:
  assumes ci: "count_inv g"
  shows "Sort rng g opts \<noteq> Panics InvalidState
       \<and> (snd ` graph_edges g \<subseteq> set (nodes g) \<longrightarrow> (\<exists>t e. Sort rng g opts = Returns t e))"
proof (cases "first_undefined rng g")
  case (Some dep)
  then show ?thesis by (simp add: Sort_unfold)
next
  case None
  then have S: "Sort rng g opts = level_and_scope rng g (sort_options opts) (init_work g)"
    by (simp add: Sort_unfold)
  note reg = first_undefined_None_reg [OF None]
  have nil: "?thesis" if "Sort rng g opts = Panics NilPointer"
    and "(u, k) \<in> graph_edges g" and "k \<notin> set (nodes g)" for u k
  proof -
    from that(2,3) have "\<not> snd ` graph_edges g \<subseteq> set (nodes g)" by force
    with that(1) show ?thesis by simp
  qed
  show ?thesis
  proof (cases "kahn rng (init_work g)")
    case (Inl e)
    have "\<exists>w1. kinv g w1 \<and> current w1 \<noteq> [] \<and> step rng w1 = Inl e"
      by (rule kahn_panics [where I = "kinv g", OF Inl kinv_init [OF ci]]) (rule kinv_step)
    then obtain w1 where i1: "kinv g w1" and s1: "step rng w1 = Inl e" by blast
    from step_Inl [OF s1] obtain p rest m where e: "e = NilPointer" and c: "current w1 = p # rest"
      and m: "m \<in> set (bucket (outputs_w w1) (NodeId (infos w1 ! p)))" and n: "nodes_w w1 m = None"
      by blast
    from i1 have pok: "ptrs_ok g w1" and K2: "edges_w w1 \<subseteq> graph_edges g"
      unfolding kinv_def by blast+
    from m K2 have "(NodeId (infos w1 ! p), m) \<in> graph_edges g" by (auto simp: edges_w_def)
    moreover from pok n have "m \<notin> set (nodes g)" unfolding ptrs_ok_def by blast
    moreover have "Sort rng g opts = Panics NilPointer" using Inl e by (simp add: S level_and_scope_def)
    ultimately show ?thesis by (rule nil [rotated])
  next
    case (Inr wz)
    from kinv_kahn [OF ci Inr] have inv: "kinv g wz" and cur: "current wz = []" by blast+
    show ?thesis
    proof (cases "0 < numUnresolvedEdges wz")
      case False
      then have "Sort rng g opts = resolve_scope g (sort_options opts) (only_of (sort_options opts)) (topology_of wz)"
        using Inr by (simp add: S level_and_scope_def)
      with resolve_scope_returns [of g "sort_options opts" "only_of (sort_options opts)" "topology_of wz"]
      show ?thesis by auto
    next
      case True
      note seed = cycle_seed_found [OF inv cur True reg]
      show ?thesis
      proof (cases "cycle_seed wz")
        case (Inr cur)
        with \<open>kahn rng (init_work g) = Inr wz\<close> True show ?thesis
          by (simp add: S level_and_scope_def)
      next
        case (Inl e)
        from Inl seed have "\<exists>e'. deref_all wz (invalid_keys wz) = Inl e' \<and> e' = e"
          by (auto simp: cycle_seed_def split: sum.splits option.splits)
        with deref_all_Inl [of wz "invalid_keys wz" e]
        obtain k where e: "e = NilPointer" and k: "k \<in> set (invalid_keys wz)"
          and n: "nodes_w wz k = None" by auto
        from inv have pok: "ptrs_ok g wz"
          and K1: "\<And>v. count_of (numInputs_w wz) v = int (card {u. (u, v) \<in> edges_w wz})"
          and K2: "edges_w wz \<subseteq> graph_edges g"
          unfolding kinv_def by blast+
        from k have "0 < count_of (numInputs_w wz) k" by (simp add: invalid_keys_def)
        with K1 [of k] have "card {u. (u, k) \<in> edges_w wz} \<noteq> 0" by simp
        then obtain u where "(u, k) \<in> edges_w wz" by (cases "{u. (u, k) \<in> edges_w wz} = {}") auto
        with K2 have "(u, k) \<in> graph_edges g" by blast
        moreover from pok n have "k \<notin> set (nodes g)" unfolding ptrs_ok_def by blast
        moreover have "Sort rng g opts = Panics NilPointer"
          using Inl e \<open>kahn rng (init_work g) = Inr wz\<close> True by (simp add: S level_and_scope_def)
        ultimately show ?thesis by (rule nil [rotated])
      qed
    qed
  qed
qed

theorem Sort_returns_witness:
  "count_inv chain_and_cycle_graph
   \<and> list_all (\<lambda>e. snd e \<in> set (nodes chain_and_cycle_graph)) (edges chain_and_cycle_graph)
   \<and> Sort list_order chain_and_cycle_graph []
       = Returns (Some [[\<lparr>NodeId = ''x'', ParentIds = [], ChildIds = [''y'']\<rparr>],
                        [\<lparr>NodeId = ''y'', ParentIds = [''x''], ChildIds = []\<rparr>]])
           (Some (CycleError [''a'', ''b'', ''a'']))
   \<and> Sort list_order chain_and_cycle_graph [] \<noteq> Panics InvalidState
   \<and> (\<exists>t e. Sort list_order chain_and_cycle_graph [] = Returns t e)"
proof -
  have a: "count_inv chain_and_cycle_graph" by (rule count_invI) code_simp
  have b: "list_all (\<lambda>e. snd e \<in> set (nodes chain_and_cycle_graph)) (edges chain_and_cycle_graph)"
    by code_simp
  have c: "Sort list_order chain_and_cycle_graph []
       = Returns (Some [[\<lparr>NodeId = ''x'', ParentIds = [], ChildIds = [''y'']\<rparr>],
                        [\<lparr>NodeId = ''y'', ParentIds = [''x''], ChildIds = []\<rparr>]])
           (Some (CycleError [''a'', ''b'', ''a'']))"
    by code_simp
  from b have "snd ` graph_edges chain_and_cycle_graph \<subseteq> set (nodes chain_and_cycle_graph)"
    by (auto simp: graph_edges_set list_all_iff)
  with Sort_returns [OF a, of list_order "[]"] a b c show ?thesis by blast
qed

text \<open>
  C10. The claim: if every source of an edge is a registered node and every count is the
  number of incoming edges, \<open>Sort\<close> does not panic and returns a pair (Topology, error).
  \<open>Sort\<close> checks the sources of the edges (the keys of \<open>outputs\<close>) and returns the
  undefined-dependency error for an unregistered one, but it never checks the targets: the
  leveling loop reads \<open>nodes[m]\<close> for the target \<open>m\<close> of an edge and appends to the
  \<open>ParentIds\<close> of the result. With the node \<open>a\<close> and the edge \<open>a \<rightarrow> b\<close>, where \<open>b\<close> was never
  registered, both conditions of the claim hold and \<open>Sort\<close> panics on the nil pointer.
\<close>

theorem Sort_panics_unregistered_target:
  "Sort list_order unregistered_target_graph [] = Panics NilPointer
   \<and> nodes unregistered_target_graph = [''a'']
   \<and> edges unregistered_target_graph = [(''a'', ''b'')]
   \<and> map (count_of (numInputs unregistered_target_graph)) [''a'', ''b'']
       = map (int \<circ> indegree unregistered_target_graph) [''a'', ''b'']"
  by code_simp

section \<open>Scoping\<close>

lemma kahn_ptrs_ok:
  assumes "kahn rng (init_work g) = Inr wz"
  shows "ptrs_ok g wz \<and> shape wz \<and> current wz = []"
proof -
  have "(ptrs_ok g wz \<and> shape wz) \<and> current wz = []"
  proof (rule kahn_invariant [where I = "\<lambda>w. ptrs_ok g w \<and> shape w", OF assms])
    show "ptrs_ok g (init_work g) \<and> shape (init_work g)"
      by (simp add: init_work_ptrs_ok shape_def)
  next
    fix w w' assume "ptrs_ok g w \<and> shape w" and ne: "current w \<noteq> []" and st: "step rng w = Inr w'"
    then have ok: "ptrs_ok g w" and sh: "shape w" by blast+
    from ne obtain p rest where c: "current w = p # rest" by (cases "current w") auto
    from step_effect(1,2) [OF ok sh c st] show "ptrs_ok g w' \<and> shape w'" by blast
  qed
  then show ?thesis by blast
qed

lemma topology_registered:
  assumes "ptrs_ok g w" and "v \<in> set (topology_of w)" and "node \<in> set v"
  shows "NodeId node \<in> set (nodes g)"
proof -
  from assms(1) have ids: "map NodeId (infos w) = nodes g"
    and rng_ok: "\<And>q s. s \<in> set (sortedSets w) \<Longrightarrow> q \<in> set s \<Longrightarrow> q < length (nodes g)"
    unfolding ptrs_ok_def by blast+
  from assms(2,3) obtain s q where "s \<in> set (sortedSets w)" "q \<in> set s" "node = infos w ! q"
    by (auto simp: topology_of_def)
  with rng_ok [of s q] ids show ?thesis by (metis length_map nth_map nth_mem)
qed

lemma scan_level_all_selected:
  "\<forall>node\<in>set v. NodeId node \<in> set sel \<Longrightarrow> scan_level g wd wod v (Some sel, acc) = Inr (Some sel, acc @ v)"
  by (induction v arbitrary: acc) (simp_all add: include_node_def)

lemma scope_levels_all_selected:
  "\<forall>v\<in>set vs. \<forall>node\<in>set v. NodeId node \<in> set sel \<Longrightarrow>
   scope_levels g wd wod vs (Some sel) r
     = Inr (rev (map (\<lambda>v. if v = [] then [] else sort_key NodeId v) vs) @ r)"
  by (induction vs arbitrary: r) (simp_all add: scan_level_all_selected)

lemma resolve_scope_all_selected:
  assumes "\<forall>v\<in>set levels. \<forall>node\<in>set v. NodeId node \<in> set sel"
  shows "resolve_scope g options (Some sel) levels = resolve_scope g options' None levels"
  using assms by (simp add: resolve_scope_def scope_levels_all_selected scope_levels_unscoped)

lemma set_fold_insert: "set (fold List.insert xs ys) = set xs \<union> set ys"
  by (induction xs arbitrary: ys) auto

lemma sort_options_Only [simp]:
  "sort_options [Only ks] = \<lparr>so_Only = ks, so_WithDependencies = False, so_WithoutDependencies = False\<rparr>"
  by (simp add: sort_options_def)

lemma Sort_only_all:
  assumes "set ks = set (nodes g)"
  shows "Sort rng g [Only ks] = Sort rng g []"
proof (cases "first_undefined rng g")
  case (Some dep)
  then show ?thesis by (simp add: Sort_unfold)
next
  case None
  show ?thesis
  proof (cases "kahn rng (init_work g)")
    case (Inl e)
    with None show ?thesis by (simp add: Sort_unfold level_and_scope_def)
  next
    case (Inr wz)
    from kahn_ptrs_ok [OF Inr] have pok: "ptrs_ok g wz" by blast
    have "resolve_scope g (sort_options [Only ks]) (only_of (sort_options [Only ks])) (topology_of wz)
        = resolve_scope g (sort_options []) (only_of (sort_options [])) (topology_of wz)"
    proof (cases "ks = []")
      case True
      then show ?thesis by (simp add: only_of_def resolve_scope_def)
    next
      case False
      have "\<forall>v\<in>set (topology_of wz). \<forall>node\<in>set v. NodeId node \<in> set (fold List.insert ks [])"
        using topology_registered [OF pok] assms by (simp add: set_fold_insert)
      from resolve_scope_all_selected [OF this] False show ?thesis
        by (simp add: only_of_def)
    qed
    with None Inr show ?thesis by (simp add: Sort_unfold level_and_scope_def)
  qed
qed

text \<open>
  C8. Idempotent scoping: on every graph on which \<open>Sort\<close> without options succeeds, and for
  every order of \<open>range\<close>, \<open>Sort(Only(k1, ..., kn))\<close> with no dependency flag, where the keys
  are exactly the registered nodes (in any order, with or without repetitions), returns the
  same Topology and the same nil error as \<open>Sort()\<close>.
\<close>

theorem Sort_only_all_nodes:
  assumes "Sort rng g [] = Returns (Some topo) None" and "set ks = set (nodes g)"
  shows "Sort rng g [Only ks] = Returns (Some topo) None"
  using assms by (simp add: Sort_only_all)

theorem Sort_only_all_nodes_witness:
  "Sort list_order scenario1 [] = Returns (Some
        [[\<lparr>NodeId = ''cache'', ParentIds = [], ChildIds = [''api'', ''web'']\<rparr>,
          \<lparr>NodeId = ''net'', ParentIds = [], ChildIds = [''mesh'', ''db'', ''api'', ''web'']\<rparr>],
         [\<lparr>NodeId = ''db'', ParentIds = [''net''], ChildIds = [''api'']\<rparr>,
          \<lparr>NodeId = ''mesh'', ParentIds = [''net''], ChildIds = []\<rparr>],
         [\<lparr>NodeId = ''api'', ParentIds = [''cache'', ''net'', ''db''], ChildIds = [''web'']\<rparr>],
         [\<lparr>NodeId = ''web'', ParentIds = [''cache'', ''net'', ''api''], ChildIds = []\<rparr>]]) None
   \<and> nodes scenario1 = [''web'', ''api'', ''db'', ''cache'', ''mesh'', ''net'']
   \<and> Sort list_order scenario1 [Only [''net'', ''mesh'', ''cache'', ''db'', ''api'', ''web'', ''net'']]
       = Returns (Some
        [[\<lparr>NodeId = ''cache'', ParentIds = [], ChildIds = [''api'', ''web'']\<rparr>,
          \<lparr>NodeId = ''net'', ParentIds = [], ChildIds = [''mesh'', ''db'', ''api'', ''web'']\<rparr>],
         [\<lparr>NodeId = ''db'', ParentIds = [''net''], ChildIds = [''api'']\<rparr>,
          \<lparr>NodeId = ''mesh'', ParentIds = [''net''], ChildIds = []\<rparr>],
         [\<lparr>NodeId = ''api'', ParentIds = [''cache'', ''net'', ''db''], ChildIds = [''web'']\<rparr>],
         [\<lparr>NodeId = ''web'', ParentIds = [''cache'', ''net'', ''api''], ChildIds = []\<rparr>]]) None"
proof -
  have a: "Sort list_order scenario1 [] = Returns (Some
        [[\<lparr>NodeId = ''cache'', ParentIds = [], ChildIds = [''api'', ''web'']\<rparr>,
          \<lparr>NodeId = ''net'', ParentIds = [], ChildIds = [''mesh'', ''db'', ''api'', ''web'']\<rparr>],
         [\<lparr>NodeId = ''db'', ParentIds = [''net''], ChildIds = [''api'']\<rparr>,
          \<lparr>NodeId = ''mesh'', ParentIds = [''net''], ChildIds = []\<rparr>],
         [\<lparr>NodeId = ''api'', ParentIds = [''cache'', ''net'', ''db''], ChildIds = [''web'']\<rparr>],
         [\<lparr>NodeId = ''web'', ParentIds = [''cache'', ''net'', ''api''], ChildIds = []\<rparr>]]) None"
    by code_simp
  have b: "nodes scenario1 = [''web'', ''api'', ''db'', ''cache'', ''mesh'', ''net'']"
    by code_simp
  then have "set [''net'', ''mesh'', ''cache'', ''db'', ''api'', ''web'', ''net''] = set (nodes scenario1)"
    by auto
  from Sort_only_all_nodes [OF a this] a b show ?thesis by simp
qed

section \<open>What a cycle error comes with\<close>

lemma kahn_levels_empty:
  assumes "kahn rng (init_work g) = Inr wz"
  shows "sortedSets wz = [] \<longleftrightarrow> current (init_work g) = []"
proof (cases "current (init_work g) = []")
  case True
  with assms have "wz = init_work g" by (simp add: kahn.simps [of rng "init_work g"])
  with True show ?thesis by simp
next
  case False
  then obtain p rest where c: "current (init_work g) = p # rest" by (cases "current (init_work g)") auto
  from assms False obtain w1 where s1: "step rng (init_work g) = Inr w1" and k1: "kahn rng w1 = Inr wz"
    by (auto simp: kahn.simps [of rng "init_work g"] split: sum.splits)
  have ok0: "ptrs_ok g (init_work g)" "shape (init_work g)"
    by (simp_all add: init_work_ptrs_ok shape_def)
  have "(ptrs_ok g wz \<and> shape wz \<and> sortedSets wz \<noteq> []) \<and> current wz = []"
  proof (rule kahn_invariant [where I = "\<lambda>w. ptrs_ok g w \<and> shape w \<and> sortedSets w \<noteq> []", OF k1])
    from step_effect(1,2,8) [OF ok0 c s1]
    show "ptrs_ok g w1 \<and> shape w1 \<and> sortedSets w1 \<noteq> []" by auto
  next
    fix w w' assume "ptrs_ok g w \<and> shape w \<and> sortedSets w \<noteq> []" and ne: "current w \<noteq> []"
      and st: "step rng w = Inr w'"
    then have ok: "ptrs_ok g w" and sh: "shape w" by blast+
    from ne obtain p rest where c: "current w = p # rest" by (cases "current w") auto
    from step_effect(1,2,8) [OF ok sh c st] show "ptrs_ok g w' \<and> shape w' \<and> sortedSets w' \<noteq> []" by auto
  qed
  with False show ?thesis by simp
qed

lemma init_work_current_empty:
  "current (init_work g) = [] \<longleftrightarrow> (\<forall>n\<in>set (nodes g). count_of (numInputs g) n \<noteq> 0)"
  unfolding init_work_current filter_empty_conv
  by (metis atLeastLessThan_iff in_set_conv_nth less_eq_nat.simps(1) set_upt)

lemma level_and_scope_cycle:
  assumes "level_and_scope rng g options w0 = Returns t (Some (CycleError path))"
  shows "\<exists>wz. kahn rng w0 = Inr wz \<and> 0 < numUnresolvedEdges wz \<and> t = Some (topology_of wz)
           \<and> level_and_scope rng g options' w0 = Returns t (Some (CycleError path))"
proof -
  have "resolve_scope g options (only_of options) levels \<noteq> Returns t (Some (CycleError path))" for levels
    by (auto simp: resolve_scope_def split: sum.splits dest: scope_levels_error)
  with assms show ?thesis
    by (auto simp: level_and_scope_def split: sum.splits if_splits)
qed

lemma level_and_scope_other_error:
  assumes "level_and_scope rng g options w0 = Returns t (Some e)" and "\<forall>path. e \<noteq> CycleError path"
  shows "t = None"
  using assms
  by (auto simp: level_and_scope_def resolve_scope_def split: sum.splits if_splits)

text \<open>
  C2, as amended. A cycle error does not come with the zero value. When \<open>Sort\<close> returns a
  cycle error, the leveling loop has run to its end and left a positive sum of counts, and
  the Topology returned with the error is non-nil: it is exactly the list of the levels
  that the loop has built (\<open>sortedSets\<close>, level by level, every node as the loop left it,
  neither sorted by key nor scoped). These levels are non-empty and hold registered nodes
  only; there is none exactly when no registered node has the count zero; and the result
  (Topology and error) is the same whatever the options are. Every other error (undefined
  dependency, unhandled dependency) comes with a nil Topology.
\<close>

theorem Sort_cycle_topology:
  "(Sort rng g opts = Returns t (Some (CycleError path)) \<longrightarrow>
      (\<exists>wz. kahn rng (init_work g) = Inr wz \<and> 0 < numUnresolvedEdges wz
         \<and> t = Some (topology_of wz)
         \<and> [] \<notin> set (topology_of wz)
         \<and> (\<forall>v\<in>set (topology_of wz). \<forall>node\<in>set v. NodeId node \<in> set (nodes g))
         \<and> (topology_of wz = [] \<longleftrightarrow> (\<forall>n\<in>set (nodes g). count_of (numInputs g) n \<noteq> 0))
         \<and> Sort rng g opts' = Returns t (Some (CycleError path))))
   \<and> (Sort rng g opts = Returns t (Some e) \<longrightarrow> (\<forall>p. e \<noteq> CycleError p) \<longrightarrow> t = None)"
proof (cases "first_undefined rng g")
  case (Some dep)
  then show ?thesis by (auto simp: Sort_unfold)
next
  case None
  then have S: "\<And>opts. Sort rng g opts = level_and_scope rng g (sort_options opts) (init_work g)"
    by (simp add: Sort_unfold)
  have "\<exists>wz. kahn rng (init_work g) = Inr wz \<and> 0 < numUnresolvedEdges wz
         \<and> t = Some (topology_of wz)
         \<and> [] \<notin> set (topology_of wz)
         \<and> (\<forall>v\<in>set (topology_of wz). \<forall>node\<in>set v. NodeId node \<in> set (nodes g))
         \<and> (topology_of wz = [] \<longleftrightarrow> (\<forall>n\<in>set (nodes g). count_of (numInputs g) n \<noteq> 0))
         \<and> Sort rng g opts' = Returns t (Some (CycleError path))"
    if c: "Sort rng g opts = Returns t (Some (CycleError path))"
  proof -
    from level_and_scope_cycle [OF c [unfolded S], of "sort_options opts'"]
    obtain wz where k: "kahn rng (init_work g) = Inr wz" and u: "0 < numUnresolvedEdges wz"
      and t: "t = Some (topology_of wz)"
      and o: "Sort rng g opts' = Returns t (Some (CycleError path))"
      by (auto simp: S)
    from kahn_ptrs_ok [OF k] have pok: "ptrs_ok g wz" and sh: "shape wz" by blast+
    from sh have "[] \<notin> set (topology_of wz)" by (auto simp: shape_def topology_of_def)
    moreover have "\<forall>v\<in>set (topology_of wz). \<forall>node\<in>set v. NodeId node \<in> set (nodes g)"
      using topology_registered [OF pok] by blast
    moreover have "topology_of wz = [] \<longleftrightarrow> (\<forall>n\<in>set (nodes g). count_of (numInputs g) n \<noteq> 0)"
      using kahn_levels_empty [OF k] by (simp add: topology_of_def init_work_current_empty)
    ultimately show ?thesis using k u t o by blast
  qed
  moreover have "t = None" if "Sort rng g opts = Returns t (Some e)" "\<forall>p. e \<noteq> CycleError p"
    using level_and_scope_other_error [OF that(1) [unfolded S] that(2)] .
  ultimately show ?thesis by blast
qed

theorem Sort_cycle_topology_witness:
  "Sort list_order chain_and_cycle_graph []
     = Returns (Some [[\<lparr>NodeId = ''x'', ParentIds = [], ChildIds = [''y'']\<rparr>],
                      [\<lparr>NodeId = ''y'', ParentIds = [''x''], ChildIds = []\<rparr>]])
         (Some (CycleError [''a'', ''b'', ''a'']))
   \<and> (\<exists>wz. kahn list_order (init_work chain_and_cycle_graph) = Inr wz
         \<and> 0 < numUnresolvedEdges wz
         \<and> topology_of wz = [[\<lparr>NodeId = ''x'', ParentIds = [], ChildIds = [''y'']\<rparr>],
                      [\<lparr>NodeId = ''y'', ParentIds = [''x''], ChildIds = []\<rparr>]])
   \<and> Sort list_order chain_and_cycle_graph [Only [''b''], WithoutDependencies]
       = Returns (Some [[\<lparr>NodeId = ''x'', ParentIds = [], ChildIds = [''y'']\<rparr>],
                      [\<lparr>NodeId = ''y'', ParentIds = [''x''], ChildIds = []\<rparr>]])
           (Some (CycleError [''a'', ''b'', ''a'']))
   \<and> Sort list_order scenario6 [] = Returns None (Some (UndefinedDependencyError ''ng'' [''web'']))"
proof -
  have a: "Sort list_order chain_and_cycle_graph []
     = Returns (Some [[\<lparr>NodeId = ''x'', ParentIds = [], ChildIds = [''y'']\<rparr>],
                      [\<lparr>NodeId = ''y'', ParentIds = [''x''], ChildIds = []\<rparr>]])
         (Some (CycleError [''a'', ''b'', ''a'']))"
    by code_simp
  have b: "Sort list_order scenario6 [] = Returns None (Some (UndefinedDependencyError ''ng'' [''web'']))"
    by code_simp
  note th = Sort_cycle_topology [of list_order chain_and_cycle_graph "[]" _ "[''a'', ''b'', ''a'']"
      "[Only [''b''], WithoutDependencies]", THEN conjunct1, THEN mp, OF a]
  from th obtain wz where k: "kahn list_order (init_work chain_and_cycle_graph) = Inr wz"
    and u: "0 < numUnresolvedEdges wz"
    and t: "Some [[\<lparr>NodeId = ''x'', ParentIds = [], ChildIds = [''y'']\<rparr>],
                      [\<lparr>NodeId = ''y'', ParentIds = [''x''], ChildIds = []\<rparr>]] = Some (topology_of wz)"
    and o: "Sort list_order chain_and_cycle_graph [Only [''b''], WithoutDependencies]
       = Returns (Some [[\<lparr>NodeId = ''x'', ParentIds = [], ChildIds = [''y'']\<rparr>],
                      [\<lparr>NodeId = ''y'', ParentIds = [''x''], ChildIds = []\<rparr>]])
           (Some (CycleError [''a'', ''b'', ''a'']))"
    by blast
  from t have t': "topology_of wz = [[\<lparr>NodeId = ''x'', ParentIds = [], ChildIds = [''y'']\<rparr>],
                      [\<lparr>NodeId = ''y'', ParentIds = [''x''], ChildIds = []\<rparr>]]"
    by (simp only: option.inject)
  from k u t' have ex: "\<exists>wz. kahn list_order (init_work chain_and_cycle_graph) = Inr wz
         \<and> 0 < numUnresolvedEdges wz
         \<and> topology_of wz = [[\<lparr>NodeId = ''x'', ParentIds = [], ChildIds = [''y'']\<rparr>],
                      [\<lparr>NodeId = ''y'', ParentIds = [''x''], ChildIds = []\<rparr>]]"
    by blast
  show ?thesis by (intro conjI) (rule a, rule ex, rule o, rule b)
qed

theorem Sort_cycle_partial_topology:
  "Sort list_order free_node_and_cycle_graph []
     = Returns (Some [[\<lparr>NodeId = ''x'', ParentIds = [], ChildIds = []\<rparr>]])
         (Some (CycleError [''a'', ''b'', ''a'']))"
  by code_simp

section \<open>A selection without a policy for its dependencies\<close>

definition offending :: "'k DAG \<Rightarrow> 'k list \<Rightarrow> 'k NodeInfo \<Rightarrow> bool" where
  "offending g sel node \<longleftrightarrow>
     NodeId node \<notin> set sel \<and> (\<exists>t\<in>set sel. t \<in> set (bucket (outputs g) (NodeId node)))"

definition unhandled :: "'k::linorder DAG \<Rightarrow> 'k list \<Rightarrow> 'k NodeInfo \<Rightarrow> 'k Error" where
  "unhandled g sel node =
     UnhandledDependencyError
       [(NodeId node, sort (filter (\<lambda>t. t \<in> set (bucket (outputs g) (NodeId node))) sel))]"

lemma include_node_strict:
  "include_node g False False node (Some sel, acc) =
     (if NodeId node \<in> set sel then Inr (Some sel, acc @ [node])
      else if offending g sel node then Inl (unhandled g sel node)
      else Inr (Some sel, acc))"
  by (auto simp: include_node_def Let_def offending_def unhandled_def filter_empty_conv)

lemma scan_level_strict:
  "scan_level g False False v (Some sel, acc) =
     (case find (offending g sel) v of
        Some node \<Rightarrow> Inl (unhandled g sel node)
      | None \<Rightarrow> Inr (Some sel, acc @ filter (\<lambda>node. NodeId node \<in> set sel) v))"
proof (induction v arbitrary: acc)
  case Nil
  then show ?case by simp
next
  case (Cons node v)
  show ?case
  proof (cases "NodeId node \<in> set sel")
    case True
    then have "\<not> offending g sel node" by (simp add: offending_def)
    with True show ?thesis by (simp add: include_node_strict Cons.IH split: option.splits)
  next
    case False
    then show ?thesis by (simp add: include_node_strict Cons.IH split: option.splits)
  qed
qed

lemma find_app:
  "find P (xs @ ys) = (case find P xs of None \<Rightarrow> find P ys | Some x \<Rightarrow> Some x)"
  by (induction xs) auto

lemma scope_levels_strict:
  "find (offending g sel) (concat vs) = Some node \<Longrightarrow>
     scope_levels g False False vs (Some sel) r = Inl (unhandled g sel node)"
proof (induction vs arbitrary: r)
  case Nil
  then show ?case by simp
next
  case (Cons v vs)
  show ?case
  proof (cases "find (offending g sel) v")
    case None
    with Cons.prems have "find (offending g sel) (concat vs) = Some node"
      by (simp add: find_app)
    from Cons.IH [OF this] None show ?thesis by (simp add: scan_level_strict)
  next
    case (Some node')
    with Cons.prems have "node' = node" by (simp add: find_app)
    with Some show ?thesis by (simp add: scan_level_strict)
  qed
qed

lemma scope_levels_strict_error:
  assumes "node \<in> set (concat vs)" and "offending g sel node"
  shows "\<exists>node'. node' \<in> set (concat vs) \<and> offending g sel node'
           \<and> scope_levels g False False vs (Some sel) r = Inl (unhandled g sel node')"
proof -
  from assms have "find (offending g sel) (concat vs) \<noteq> None"
    unfolding find_None_iff by blast
  then obtain node' where f: "find (offending g sel) (concat vs) = Some node'" by blast
  then have "node' \<in> set (concat vs)" "offending g sel node'"
    unfolding find_Some_iff by (metis nth_mem)+
  with scope_levels_strict [OF f, of r] show ?thesis by blast
qed

lemma distinct_fold_insert: "distinct ys \<Longrightarrow> distinct (fold List.insert xs ys)"
  by (induction xs arbitrary: ys) auto

lemma in_level_node:
  assumes "in_level (filter (\<lambda>ns. ns \<noteq> []) (map (\<lambda>v. if v = [] then [] else sort_key NodeId v) levels)) i k"
  shows "\<exists>node\<in>set (concat levels). NodeId node = k"
proof -
  let ?topo = "filter (\<lambda>ns. ns \<noteq> []) (map (\<lambda>v. if v = [] then [] else sort_key NodeId v) levels)"
  from assms have i: "i < length ?topo" and k: "k \<in> NodeId ` set (?topo ! i)"
    by (simp_all add: in_level_def)
  from i have "?topo ! i \<in> set ?topo" by (rule nth_mem)
  then have "?topo ! i \<in> set (map (\<lambda>v. if v = [] then [] else sort_key NodeId v) levels)"
    unfolding set_filter by blast
  then have "?topo ! i \<in> (\<lambda>v. if v = [] then [] else sort_key NodeId v) ` set levels"
    unfolding set_map .
  then obtain v where v: "v \<in> set levels"
    and e: "?topo ! i = (if v = [] then [] else sort_key NodeId v)" by blast
  from k e have "k \<in> NodeId ` set v" by (cases "v = []") simp_all
  with v show ?thesis by auto
qed

lemma node_in_level:
  assumes "node \<in> set (concat levels)"
  shows "\<exists>j. in_level (filter (\<lambda>ns. ns \<noteq> []) (map (\<lambda>v. if v = [] then [] else sort_key NodeId v) levels)) j (NodeId node)"
proof -
  let ?topo = "filter (\<lambda>ns. ns \<noteq> []) (map (\<lambda>v. if v = [] then [] else sort_key NodeId v) levels)"
  from assms obtain v where v: "v \<in> set levels" "node \<in> set v" by auto
  then have "v \<noteq> []" by auto
  with v have "sort_key NodeId v \<in> set ?topo" by (auto simp: sort_key_Nil_iff)
  then obtain j where j: "j < length ?topo" "?topo ! j = sort_key NodeId v"
    unfolding in_set_conv_nth by blast
  from v(2) have m: "NodeId node \<in> NodeId ` set (sort_key NodeId v)" by simp
  have "in_level ?topo j (NodeId node)"
    unfolding in_level_def j(2) using j(1) m by (rule conjI)
  then show ?thesis ..
qed

lemma offending_cong: "set sel = set sel' \<Longrightarrow> offending g sel = offending g sel'"
  by (rule ext) (simp add: offending_def)

text \<open>
  C7, as amended. Let \<open>Sort\<close> without options succeed and return the Topology \<open>topo\<close>, let
  \<open>Only\<close> be a non-empty selection and no dependency flag be set, and let some node \<open>D\<close> of
  \<open>topo\<close> that is not selected have a selected node in its bucket (\<open>D\<close> is a direct
  dependency of a selected node). Then \<open>Sort\<close> with these options returns a nil Topology
  and an unhandled-dependency error. The error names the first node that is not selected
  and has a selected node in its bucket, in the order in which the scope is resolved: the
  levels that the leveling loop has built (\<open>topo\<close> is these levels, each sorted by key) are
  scanned from the last to the first, each level in the order in which the loop filled it.
  This node need not be \<open>D\<close>. With it the error names all the selected nodes that depend
  on it, sorted by the key order, each once.
\<close>

theorem Sort_unhandled_dependency:
  assumes lev: "Sort rng g [] = Returns (Some topo) None"
    and only: "so_Only (sort_options opts) \<noteq> []"
    and wd: "\<not> so_WithDependencies (sort_options opts)"
    and wod: "\<not> so_WithoutDependencies (sort_options opts)"
    and D: "in_level topo i D" "D \<notin> set (so_Only (sort_options opts))"
    and S: "S \<in> set (so_Only (sort_options opts))" "S \<in> set (bucket (outputs g) D)"
  shows "\<exists>wz node ds.
             kahn rng (init_work g) = Inr wz
           \<and> topo = map (sort_key NodeId) (topology_of wz)
           \<and> find (offending g (so_Only (sort_options opts))) (concat (rev (topology_of wz))) = Some node
           \<and> Sort rng g opts = Returns None (Some (UnhandledDependencyError [(NodeId node, ds)]))
           \<and> (\<exists>j. in_level topo j (NodeId node))
           \<and> NodeId node \<notin> set (so_Only (sort_options opts))
           \<and> sorted ds \<and> distinct ds \<and> ds \<noteq> []
           \<and> set ds = {s \<in> set (so_Only (sort_options opts)). s \<in> set (bucket (outputs g) (NodeId node))}"
proof -
  define sel where "sel = fold List.insert (so_Only (sort_options opts)) []"
  have sel: "set sel = set (so_Only (sort_options opts))" "distinct sel"
    by (simp_all add: sel_def set_fold_insert distinct_fold_insert)
  note oc = offending_cong [OF sel(1), of g]
  from Sort_unscoped_success [OF lev] obtain wz where fu: "first_undefined rng g = None"
    and k: "kahn rng (init_work g) = Inr wz" and u: "\<not> 0 < numUnresolvedEdges wz"
    and t: "topo = filter (\<lambda>ns. ns \<noteq> [])
                   (map (\<lambda>v. if v = [] then [] else sort_key NodeId v) (topology_of wz))"
    by auto
  from kahn_ptrs_ok [OF k] have "shape wz" by blast
  then have "[] \<notin> set (topology_of wz)" by (auto simp: shape_def topology_of_def)
  from unscoped_levels [OF this] have t': "topo = map (sort_key NodeId) (topology_of wz)"
    by (simp add: t)
  have S': "Sort rng g opts
      = (case scope_levels g False False (rev (topology_of wz)) (Some sel) [] of
           Inl e \<Rightarrow> Returns None (Some e)
         | Inr r \<Rightarrow> Returns (Some (filter (\<lambda>ns. ns \<noteq> []) r)) None)"
    using fu k u only wd wod
    by (simp add: Sort_unfold level_and_scope_def resolve_scope_def only_of_def sel_def)
  from in_level_node [OF D(1) [unfolded t]] obtain node0 where
    n: "node0 \<in> set (concat (topology_of wz))" "NodeId node0 = D" by blast
  then have "node0 \<in> set (concat (rev (topology_of wz)))" by auto
  moreover have "offending g sel node0" using n(2) D(2) S by (auto simp: offending_def sel)
  ultimately have "find (offending g sel) (concat (rev (topology_of wz))) \<noteq> None"
    unfolding find_None_iff by blast
  then obtain node where f: "find (offending g sel) (concat (rev (topology_of wz))) = Some node"
    by blast
  then have n': "node \<in> set (concat (rev (topology_of wz)))" and off: "offending g sel node"
    unfolding find_Some_iff by (metis nth_mem)+
  from scope_levels_strict [OF f, of "[]"]
  have sc: "scope_levels g False False (rev (topology_of wz)) (Some sel) [] = Inl (unhandled g sel node)" .
  define ds where "ds = sort (filter (\<lambda>t. t \<in> set (bucket (outputs g) (NodeId node))) sel)"
  have "Sort rng g opts = Returns None (Some (UnhandledDependencyError [(NodeId node, ds)]))"
    by (simp add: S' sc unhandled_def ds_def)
  moreover from n' have "node \<in> set (concat (topology_of wz))" by auto
  from node_in_level [OF this] have "\<exists>j. in_level topo j (NodeId node)" by (simp add: t)
  moreover have "NodeId node \<notin> set (so_Only (sort_options opts))"
    using off by (simp add: offending_def sel)
  moreover have "sorted ds" "distinct ds" by (simp_all add: ds_def sel)
  moreover have "set ds = {s \<in> set (so_Only (sort_options opts)). s \<in> set (bucket (outputs g) (NodeId node))}"
    by (auto simp: ds_def sel)
  moreover from this off have "ds \<noteq> []" by (auto simp: offending_def sel)
  moreover have "find (offending g (so_Only (sort_options opts))) (concat (rev (topology_of wz))) = Some node"
    using f by (simp add: oc)
  ultimately show ?thesis using k t' by blast
qed

theorem Sort_unhandled_dependency_witness:
  "Sort list_order scenario1 [] = Returns (Some
        [[\<lparr>NodeId = ''cache'', ParentIds = [], ChildIds = [''api'', ''web'']\<rparr>,
          \<lparr>NodeId = ''net'', ParentIds = [], ChildIds = [''mesh'', ''db'', ''api'', ''web'']\<rparr>],
         [\<lparr>NodeId = ''db'', ParentIds = [''net''], ChildIds = [''api'']\<rparr>,
          \<lparr>NodeId = ''mesh'', ParentIds = [''net''], ChildIds = []\<rparr>],
         [\<lparr>NodeId = ''api'', ParentIds = [''cache'', ''net'', ''db''], ChildIds = [''web'']\<rparr>],
         [\<lparr>NodeId = ''web'', ParentIds = [''cache'', ''net'', ''api''], ChildIds = []\<rparr>]]) None
   \<and> in_level
        [[\<lparr>NodeId = ''cache'', ParentIds = [], ChildIds = [''api'', ''web'']\<rparr>,
          \<lparr>NodeId = ''net'', ParentIds = [], ChildIds = [''mesh'', ''db'', ''api'', ''web'']\<rparr>],
         [\<lparr>NodeId = ''db'', ParentIds = [''net''], ChildIds = [''api'']\<rparr>,
          \<lparr>NodeId = ''mesh'', ParentIds = [''net''], ChildIds = []\<rparr>],
         [\<lparr>NodeId = ''api'', ParentIds = [''cache'', ''net'', ''db''], ChildIds = [''web'']\<rparr>],
         [\<lparr>NodeId = ''web'', ParentIds = [''cache'', ''net'', ''api''], ChildIds = []\<rparr>]] 0 ''net''
   \<and> ''db'' \<in> set (bucket (outputs scenario1) ''net'')
   \<and> Sort list_order scenario1 [Only [''db'', ''mesh'']]
       = Returns None (Some (UnhandledDependencyError [(''net'', [''db'', ''mesh''])]))
   \<and> Error_String id (UnhandledDependencyError [(''net'', [''db'', ''mesh''])])
       = Inr ([CHR 0x22] @ ''net'' @ [CHR 0x22] @ '' depended by '' @ [CHR 0x22] @ ''db'' @ [CHR 0x22]
              @ '' and '' @ [CHR 0x22] @ ''mesh'' @ [CHR 0x22] @ '' is not included'')
   \<and> (\<exists>wz node ds.
             kahn list_order (init_work scenario1) = Inr wz
           \<and> [[\<lparr>NodeId = ''cache'', ParentIds = [], ChildIds = [''api'', ''web'']\<rparr>,
          \<lparr>NodeId = ''net'', ParentIds = [], ChildIds = [''mesh'', ''db'', ''api'', ''web'']\<rparr>],
         [\<lparr>NodeId = ''db'', ParentIds = [''net''], ChildIds = [''api'']\<rparr>,
          \<lparr>NodeId = ''mesh'', ParentIds = [''net''], ChildIds = []\<rparr>],
         [\<lparr>NodeId = ''api'', ParentIds = [''cache'', ''net'', ''db''], ChildIds = [''web'']\<rparr>],
         [\<lparr>NodeId = ''web'', ParentIds = [''cache'', ''net'', ''api''], ChildIds = []\<rparr>]] = map (sort_key NodeId) (topology_of wz)
           \<and> find (offending scenario1 [''db'', ''mesh'']) (concat (rev (topology_of wz))) = Some node
           \<and> Sort list_order scenario1 [Only [''db'', ''mesh'']]
               = Returns None (Some (UnhandledDependencyError [(NodeId node, ds)]))
           \<and> (\<exists>j. in_level
        [[\<lparr>NodeId = ''cache'', ParentIds = [], ChildIds = [''api'', ''web'']\<rparr>,
          \<lparr>NodeId = ''net'', ParentIds = [], ChildIds = [''mesh'', ''db'', ''api'', ''web'']\<rparr>],
         [\<lparr>NodeId = ''db'', ParentIds = [''net''], ChildIds = [''api'']\<rparr>,
          \<lparr>NodeId = ''mesh'', ParentIds = [''net''], ChildIds = []\<rparr>],
         [\<lparr>NodeId = ''api'', ParentIds = [''cache'', ''net'', ''db''], ChildIds = [''web'']\<rparr>],
         [\<lparr>NodeId = ''web'', ParentIds = [''cache'', ''net'', ''api''], ChildIds = []\<rparr>]] j (NodeId node))
           \<and> NodeId node \<notin> set [''db'', ''mesh''] \<and> sorted ds \<and> distinct ds \<and> ds \<noteq> []
           \<and> set ds = {s \<in> set [''db'', ''mesh'']. s \<in> set (bucket (outputs scenario1) (NodeId node))})"
proof -
  have a: "Sort list_order scenario1 [] = Returns (Some
        [[\<lparr>NodeId = ''cache'', ParentIds = [], ChildIds = [''api'', ''web'']\<rparr>,
          \<lparr>NodeId = ''net'', ParentIds = [], ChildIds = [''mesh'', ''db'', ''api'', ''web'']\<rparr>],
         [\<lparr>NodeId = ''db'', ParentIds = [''net''], ChildIds = [''api'']\<rparr>,
          \<lparr>NodeId = ''mesh'', ParentIds = [''net''], ChildIds = []\<rparr>],
         [\<lparr>NodeId = ''api'', ParentIds = [''cache'', ''net'', ''db''], ChildIds = [''web'']\<rparr>],
         [\<lparr>NodeId = ''web'', ParentIds = [''cache'', ''net'', ''api''], ChildIds = []\<rparr>]]) None"
    by code_simp
  have b: "in_level
        [[\<lparr>NodeId = ''cache'', ParentIds = [], ChildIds = [''api'', ''web'']\<rparr>,
          \<lparr>NodeId = ''net'', ParentIds = [], ChildIds = [''mesh'', ''db'', ''api'', ''web'']\<rparr>],
         [\<lparr>NodeId = ''db'', ParentIds = [''net''], ChildIds = [''api'']\<rparr>,
          \<lparr>NodeId = ''mesh'', ParentIds = [''net''], ChildIds = []\<rparr>],
         [\<lparr>NodeId = ''api'', ParentIds = [''cache'', ''net'', ''db''], ChildIds = [''web'']\<rparr>],
         [\<lparr>NodeId = ''web'', ParentIds = [''cache'', ''net'', ''api''], ChildIds = []\<rparr>]] 0 ''net''"
    unfolding in_level_def by simp
  have c: "''db'' \<in> set (bucket (outputs scenario1) ''net'')" by code_simp
  have d: "Sort list_order scenario1 [Only [''db'', ''mesh'']]
       = Returns None (Some (UnhandledDependencyError [(''net'', [''db'', ''mesh''])]))"
    by code_simp
  have e: "Error_String id (UnhandledDependencyError [(''net'', [''db'', ''mesh''])])
       = Inr ([CHR 0x22] @ ''net'' @ [CHR 0x22] @ '' depended by '' @ [CHR 0x22] @ ''db'' @ [CHR 0x22]
              @ '' and '' @ [CHR 0x22] @ ''mesh'' @ [CHR 0x22] @ '' is not included'')"
    by code_simp
  have so: "so_Only (sort_options [Only [''db'', ''mesh'']]) = [''db'', ''mesh'']" by simp
  have p1: "so_Only (sort_options [Only [''db'', ''mesh'']]) \<noteq> []" by simp
  have p2: "\<not> so_WithDependencies (sort_options [Only [''db'', ''mesh'']])" by simp
  have p3: "\<not> so_WithoutDependencies (sort_options [Only [''db'', ''mesh'']])" by simp
  have p4: "''net'' \<notin> set (so_Only (sort_options [Only [''db'', ''mesh'']]))" by simp
  have p5: "''db'' \<in> set (so_Only (sort_options [Only [''db'', ''mesh'']]))" by simp
  note th = Sort_unhandled_dependency [OF a p1 p2 p3 b p4 p5 c, unfolded so]
  show ?thesis by (intro conjI) (rule a, rule b, rule c, rule d, rule e, rule th)
qed

theorem Sort_only_other_outcomes:
  "(''a'', ''b'') \<in> set (edges free_node_and_cycle_graph)
   \<and> Sort list_order free_node_and_cycle_graph [Only [''b'']]
       = Returns (Some [[\<lparr>NodeId = ''x'', ParentIds = [], ChildIds = []\<rparr>]])
           (Some (CycleError [''a'', ''b'', ''a'']))
   \<and> (''net'', ''web'') \<in> set (edges scenario1)
   \<and> Sort list_order scenario1 [Only [''web'']]
       = Returns None (Some (UnhandledDependencyError [(''api'', [''web''])]))"
  by code_simp

section \<open>Repeating a sort\<close>

subsection \<open>Two runs of the leveling loop\<close>

definition lev :: "'k work \<Rightarrow> nat \<Rightarrow> nat list" where
  \<comment> \<open>the pointers known to belong to level \<open>i\<close>: placed, waiting in \<open>current\<close>, or in \<open>next\<close>\<close>
  "lev w i =
     (if i < length (sortedSets w) then sortedSets w ! i else [])
     @ (if i = depth w then current w else [])
     @ (if i = Suc (depth w) then next_w w else [])"

definition linv :: "'k DAG \<Rightarrow> 'k work \<Rightarrow> bool" where
  "linv g w \<longleftrightarrow>
     lev w 0 = current (init_work g)
     \<and> (\<forall>i. 0 < i \<longrightarrow> distinct (map (\<lambda>q. nodes g ! q) (lev w i)))
     \<and> (\<forall>i q. q \<in> set (lev w (Suc i))
           \<longrightarrow> (\<exists>x. (x, nodes g ! q) \<in> graph_edges g \<and> (i, x) \<in> placed g w))"

lemma step_lists:
  assumes ok: "ptrs_ok g w" and sh: "shape w" and c: "current w = p # rest"
    and st: "step rng w = Inr w'"
  shows "\<exists>new. distinct new
      \<and> set new = {m. (nodes g ! p, m) \<in> edges_w w \<and> count_of (numInputs_w w) m = 1}
      \<and> (\<forall>m\<in>set new. nodes g ! the (nodes_w w m) = m)
      \<and> sortedSets w' = push_level (depth w) p (sortedSets w)
      \<and> current w' = (if rest = [] then next_w w @ map (\<lambda>m. the (nodes_w w m)) new else rest)
      \<and> next_w w' = (if rest = [] then [] else next_w w @ map (\<lambda>m. the (nodes_w w m)) new)
      \<and> depth w' = (if rest = [] then Suc (depth w) else depth w)"
proof -
  from ok have ids: "map NodeId (infos w) = nodes g"
    and ptr: "\<And>k q. nodes_w w k = Some q \<Longrightarrow> q < length (nodes g) \<and> nodes g ! q = k"
    and rng_ok: "\<And>q. q \<in> set (current w) \<or> q \<in> set (next_w w) \<or> (\<exists>s\<in>set (sortedSets w). q \<in> set s)
           \<Longrightarrow> q < length (nodes g)"
    unfolding ptrs_ok_def by blast+
  from ids have len: "length (infos w) = length (nodes g)" by (metis length_map)
  from rng_ok c have p: "p < length (nodes g)" by simp
  with ids len have idp: "NodeId (infos w ! p) = nodes g ! p" by (metis nth_map)
  define n where "n = nodes g ! p"
  define w1 where "w1 = w\<lparr>current := rest, sortedSets := push_level (depth w) p (sortedSets w)\<rparr>"
  define ms where "ms = range_order rng (Some n) (remdups (bucket (outputs_w w) n))"
  have dms: "distinct ms" unfolding ms_def
    by (metis distinct_remdups mset_eq_imp_distinct_iff range_order_mset)
  have sms: "set ms = set (bucket (outputs_w w) n)" by (simp add: ms_def)
  from st c obtain w2 where v: "visit_all p ms w1 = Inr w2" and w': "w' = advance w2"
    by (auto simp: step_def Let_def w1_def ms_def n_def idp split: sum.splits)
  have p1: "p < length (infos w1)" using p len by (simp add: w1_def)
  have id1: "NodeId (infos w1 ! p) = n" by (simp add: w1_def idp n_def)
  from visit_all_Inr [OF v dms p1, unfolded id1]
  have nn: "\<And>m. m \<in> set ms \<Longrightarrow> nodes_w w m \<noteq> None"
    and nx: "next_w w2 = next_w w @ map (\<lambda>m. the (nodes_w w m)) (filter (\<lambda>m. count_of (numInputs_w w) m = 1) ms)"
    and f2: "current w2 = rest" "depth w2 = depth w"
            "sortedSets w2 = push_level (depth w) p (sortedSets w)"
    by (simp_all add: w1_def ids)
  have key: "\<And>m. m \<in> set ms \<Longrightarrow> nodes g ! the (nodes_w w m) = m"
    using nn ptr by fastforce
  define new where "new = filter (\<lambda>m. count_of (numInputs_w w) m = 1) ms"
  have "distinct new" using dms by (simp add: new_def)
  moreover have "set new = {m. (nodes g ! p, m) \<in> edges_w w \<and> count_of (numInputs_w w) m = 1}"
    by (auto simp: new_def sms edges_w_def n_def)
  moreover have "\<forall>m\<in>set new. nodes g ! the (nodes_w w m) = m"
    using key by (simp add: new_def)
  moreover have "sortedSets w' = push_level (depth w) p (sortedSets w)"
    by (simp add: w' advance_def f2)
  moreover have "current w' = (if rest = [] then next_w w @ map (\<lambda>m. the (nodes_w w m)) new else rest)"
    by (simp add: w' advance_def f2 nx new_def)
  moreover have "next_w w' = (if rest = [] then [] else next_w w @ map (\<lambda>m. the (nodes_w w m)) new)"
    by (simp add: w' advance_def f2 nx new_def)
  moreover have "depth w' = (if rest = [] then Suc (depth w) else depth w)"
    by (simp add: w' advance_def f2)
  ultimately show ?thesis by blast
qed

lemma lev_step:
  assumes sh: "shape w" and c: "current w = p # rest"
    and ss: "sortedSets w' = push_level (depth w) p (sortedSets w)"
    and cu: "current w' = (if rest = [] then next_w w @ nw else rest)"
    and nx: "next_w w' = (if rest = [] then [] else next_w w @ nw)"
    and de: "depth w' = (if rest = [] then Suc (depth w) else depth w)"
  shows "lev w' i = (if i = Suc (depth w) then lev w i @ nw else lev w i)"
proof -
  from sh have d: "length (sortedSets w) = depth w \<or> length (sortedSets w) = Suc (depth w)"
    by (auto simp: shape_def)
  then show ?thesis
  proof
    assume l: "length (sortedSets w) = depth w"
    then have ss': "sortedSets w' = sortedSets w @ [[p]]" by (simp add: ss push_level_def)
    show ?thesis
      by (cases "rest = []") (auto simp: lev_def ss' cu nx de c l nth_append)
  next
    assume l: "length (sortedSets w) = Suc (depth w)"
    then have ss': "sortedSets w' = (sortedSets w)[depth w := sortedSets w ! depth w @ [p]]"
      by (simp add: ss push_level_def)
    show ?thesis
      by (cases "rest = []") (auto simp: lev_def ss' cu nx de c l nth_list_update)
  qed
qed

lemma lev_placed: "placed g w \<union> queued g w = {(i, nodes g ! q) | i q. q \<in> set (lev w i)}"
  by (auto simp: placed_def queued_def lev_def split: if_splits)

lemma lev_init: "lev (init_work g) i = (if i = 0 then current (init_work g) else [])"
  by (simp add: lev_def)

lemma linv_init: "linv g (init_work g)"
  by (simp add: linv_def lev_init)


lemma linv_step:
  assumes inv: "kinv g w" and li: "linv g w" and ne: "current w \<noteq> []" and st: "step rng w = Inr w'"
  shows "linv g w'"
proof -
  from ne obtain p rest where c: "current w = p # rest" by (cases "current w") auto
  define n where "n = nodes g ! p"
  define d where "d = depth w"
  from inv have ok: "ptrs_ok g w" and sh: "shape w"
    and K2: "edges_w w \<subseteq> graph_edges g"
    and K3: "\<And>u v. (u, v) \<in> graph_edges g \<Longrightarrow> ((u, v) \<notin> edges_w w \<longleftrightarrow> u \<in> snd ` placed g w)"
    and K5: "\<And>j y x. (j, y) \<in> placed g w \<union> queued g w \<Longrightarrow> (x, y) \<in> graph_edges g
            \<Longrightarrow> \<exists>i<j. (i, x) \<in> placed g w"
    unfolding kinv_def by blast+
  from li have L0: "lev w 0 = current (init_work g)"
    and D: "\<And>i. 0 < i \<Longrightarrow> distinct (map (\<lambda>q. nodes g ! q) (lev w i))"
    and T: "\<And>i q. q \<in> set (lev w (Suc i))
           \<Longrightarrow> \<exists>x. (x, nodes g ! q) \<in> graph_edges g \<and> (i, x) \<in> placed g w"
    unfolding linv_def by blast+
  have P': "placed g w' = insert (d, n) (placed g w)"
    using step_effect(5) [OF ok sh c st] by (simp add: n_def d_def)
  from step_lists [OF ok sh c st] obtain new where dn: "distinct new"
    and sn: "set new = {m. (n, m) \<in> edges_w w \<and> count_of (numInputs_w w) m = 1}"
    and kn: "\<And>m. m \<in> set new \<Longrightarrow> nodes g ! the (nodes_w w m) = m"
    and ss: "sortedSets w' = push_level (depth w) p (sortedSets w)"
    and cu: "current w' = (if rest = [] then next_w w @ map (\<lambda>m. the (nodes_w w m)) new else rest)"
    and nx: "next_w w' = (if rest = [] then [] else next_w w @ map (\<lambda>m. the (nodes_w w m)) new)"
    and de: "depth w' = (if rest = [] then Suc (depth w) else depth w)"
    unfolding n_def by blast
  have L: "\<And>i. lev w' i = (if i = Suc d then lev w i @ map (\<lambda>m. the (nodes_w w m)) new else lev w i)"
    unfolding d_def by (rule lev_step [OF sh c ss cu nx de])
  have fresh: "\<And>j m. (n, m) \<in> edges_w w \<Longrightarrow> (j, m) \<notin> placed g w \<union> queued g w"
  proof
    fix j m assume e: "(n, m) \<in> edges_w w" and "(j, m) \<in> placed g w \<union> queued g w"
    with K5 [of j m n] K2 have "n \<in> snd ` placed g w" by force
    with K3 [of n m] K2 e show False by blast
  qed
  have keys_new: "map (\<lambda>q. nodes g ! q) (map (\<lambda>m. the (nodes_w w m)) new) = new"
    using kn by (simp add: map_idI)
  show ?thesis
    unfolding linv_def
  proof (intro conjI allI impI)
    show "lev w' 0 = current (init_work g)" by (simp add: L L0)
  next
    fix i :: nat assume i: "0 < i"
    show "distinct (map (\<lambda>q. nodes g ! q) (lev w' i))"
    proof (cases "i = Suc d")
      case False
      with D [OF i] show ?thesis by (simp add: L)
    next
      case True
      have "set (map (\<lambda>q. nodes g ! q) (lev w i)) \<inter> set new = {}"
      proof (rule ccontr)
        assume "set (map (\<lambda>q. nodes g ! q) (lev w i)) \<inter> set new \<noteq> {}"
        then obtain q where q: "q \<in> set (lev w i)" and m: "nodes g ! q \<in> set new" by auto
        from q have "(i, nodes g ! q) \<in> placed g w \<union> queued g w"
          unfolding lev_placed by blast
        moreover from m have "(n, nodes g ! q) \<in> edges_w w" by (simp add: sn)
        ultimately show False using fresh by blast
      qed
      moreover have "map (\<lambda>q. nodes g ! q) (lev w' i) = map (\<lambda>q. nodes g ! q) (lev w i) @ new"
        unfolding L [of i] using True keys_new by (simp del: map_map)
      ultimately show ?thesis using D [OF i] dn by simp
    qed
  next
    fix i q assume q: "q \<in> set (lev w' (Suc i))"
    show "\<exists>x. (x, nodes g ! q) \<in> graph_edges g \<and> (i, x) \<in> placed g w'"
    proof (cases "q \<in> set (lev w (Suc i))")
      case True
      from T [OF this] show ?thesis by (auto simp: P')
    next
      case False
      with q L [of "Suc i"] have id: "i = d" and "q \<in> (\<lambda>m. the (nodes_w w m)) ` set new"
        by (auto split: if_splits)
      then obtain m where m: "m \<in> set new" and qm: "q = the (nodes_w w m)" by blast
      from m kn qm have "nodes g ! q = m" by simp
      moreover from m have "(n, m) \<in> graph_edges g" using K2 by (auto simp: sn)
      ultimately show ?thesis using id by (auto simp: P')
    qed
  qed
qed

lemma linv_kahn:
  assumes ci: "count_inv g" and k: "kahn rng (init_work g) = Inr wz"
  shows "kinv g wz \<and> linv g wz \<and> current wz = [] \<and> next_w wz = []"
proof -
  have "(kinv g wz \<and> linv g wz) \<and> current wz = []"
  proof (rule kahn_invariant [where I = "\<lambda>w. kinv g w \<and> linv g w", OF k])
    show "kinv g (init_work g) \<and> linv g (init_work g)"
      using kinv_init [OF ci] linv_init by blast
  next
    fix w w' assume "kinv g w \<and> linv g w" and ne: "current w \<noteq> []" and st: "step rng w = Inr w'"
    then show "kinv g w' \<and> linv g w'"
      using kinv_step [of g w rng w'] linv_step [of g w rng w'] by blast
  qed
  moreover from this have "next_w wz = []" by (simp add: kinv_def shape_def)
  ultimately show ?thesis by blast
qed


definition leveling :: "'k DAG \<Rightarrow> (nat \<times> 'k) set \<Rightarrow> bool" where
  \<comment> \<open>what the levels of a finished run are, whatever the order of \<open>range\<close> was\<close>
  "leveling g P \<longleftrightarrow>
     (\<forall>j y x. (j, y) \<in> P \<longrightarrow> (x, y) \<in> graph_edges g \<longrightarrow> (\<exists>i<j. (i, x) \<in> P))
     \<and> (\<forall>i j x. (i, x) \<in> P \<longrightarrow> (j, x) \<in> P \<longrightarrow> i = j)
     \<and> (\<forall>i y. (Suc i, y) \<in> P \<longrightarrow> (\<exists>x. (x, y) \<in> graph_edges g \<and> (i, x) \<in> P))
     \<and> (\<forall>y. y \<in> set (nodes g) \<longrightarrow> (\<forall>x. (x, y) \<in> graph_edges g \<longrightarrow> x \<in> snd ` P) \<longrightarrow> y \<in> snd ` P)
     \<and> snd ` P \<subseteq> set (nodes g)"

lemma levelingD:
  assumes "leveling g P"
  shows "(j, y) \<in> P \<Longrightarrow> (x, y) \<in> graph_edges g \<Longrightarrow> \<exists>i<j. (i, x) \<in> P"
    and "(i, x) \<in> P \<Longrightarrow> (j, x) \<in> P \<Longrightarrow> i = j"
    and "(Suc i, y) \<in> P \<Longrightarrow> \<exists>x. (x, y) \<in> graph_edges g \<and> (i, x) \<in> P"
    and "y \<in> set (nodes g) \<Longrightarrow> (\<forall>x. (x, y) \<in> graph_edges g \<longrightarrow> x \<in> snd ` P) \<Longrightarrow> y \<in> snd ` P"
    and "snd ` P \<subseteq> set (nodes g)"
proof -
  note a = assms [unfolded leveling_def]
  from a [THEN conjunct1] show "(j, y) \<in> P \<Longrightarrow> (x, y) \<in> graph_edges g \<Longrightarrow> \<exists>i<j. (i, x) \<in> P"
    by blast
  from a [THEN conjunct2, THEN conjunct1] show "(i, x) \<in> P \<Longrightarrow> (j, x) \<in> P \<Longrightarrow> i = j"
    by blast
  from a [THEN conjunct2, THEN conjunct2, THEN conjunct1]
  show "(Suc i, y) \<in> P \<Longrightarrow> \<exists>x. (x, y) \<in> graph_edges g \<and> (i, x) \<in> P"
    by blast
  from a [THEN conjunct2, THEN conjunct2, THEN conjunct2, THEN conjunct1]
  have "y \<in> set (nodes g) \<longrightarrow> (\<forall>x. (x, y) \<in> graph_edges g \<longrightarrow> x \<in> snd ` P) \<longrightarrow> y \<in> snd ` P"
    by (rule spec)
  then show "y \<in> set (nodes g) \<Longrightarrow> (\<forall>x. (x, y) \<in> graph_edges g \<longrightarrow> x \<in> snd ` P) \<Longrightarrow> y \<in> snd ` P"
    by (rule mp [THEN mp])
  from a [THEN conjunct2, THEN conjunct2, THEN conjunct2, THEN conjunct2]
  show "snd ` P \<subseteq> set (nodes g)" .
qed

lemma leveling_mono:
  assumes P: "leveling g P" and Q: "leveling g Q"
  shows "(i, y) \<in> P \<Longrightarrow> (i, y) \<in> Q"
proof (induction i arbitrary: y rule: less_induct)
  case (less i)
  note ordP = levelingD(1) [OF P] and tightP = levelingD(3) [OF P] and regP = levelingD(5) [OF P]
  note ordQ = levelingD(1) [OF Q] and uniQ = levelingD(2) [OF Q] and tightQ = levelingD(3) [OF Q]
    and compQ = levelingD(4) [OF Q]
  have src: "\<And>x. (x, y) \<in> graph_edges g \<Longrightarrow> \<exists>i'<i. (i', x) \<in> P \<and> (i', x) \<in> Q"
  proof -
    fix x assume "(x, y) \<in> graph_edges g"
    from ordP [OF less.prems this] obtain i' where "i' < i" "(i', x) \<in> P" by blast
    with less.IH [of i' x] show "\<exists>i'<i. (i', x) \<in> P \<and> (i', x) \<in> Q" by blast
  qed
  from less.prems regP have "y \<in> set (nodes g)" by force
  moreover have "\<forall>x. (x, y) \<in> graph_edges g \<longrightarrow> x \<in> snd ` Q"
    using src by force
  ultimately have "y \<in> snd ` Q" by (rule compQ)
  then obtain m where m: "(m, y) \<in> Q" by force
  have "m \<le> i"
  proof (cases m)
    case 0
    then show ?thesis by simp
  next
    case (Suc m')
    with tightQ [of m' y] m obtain x1 where e: "(x1, y) \<in> graph_edges g" and q: "(m', x1) \<in> Q"
      by blast
    from src [OF e] obtain i1 where "i1 < i" "(i1, x1) \<in> Q" by blast
    with uniQ [OF q] have "m' < i" by blast
    with Suc show ?thesis by simp
  qed
  moreover have "i \<le> m"
  proof (cases i)
    case 0
    then show ?thesis by simp
  next
    case (Suc j)
    with tightP [of j y] less.prems obtain x0 where e: "(x0, y) \<in> graph_edges g" and p: "(j, x0) \<in> P"
      by blast
    from less.IH [of j x0] p Suc have q: "(j, x0) \<in> Q" by simp
    from ordQ [OF m e] obtain m' where "m' < m" "(m', x0) \<in> Q" by blast
    with uniQ [OF q] have "j < m" by blast
    with Suc show ?thesis by simp
  qed
  ultimately show ?case using m by simp
qed

lemma leveling_unique: "leveling g P \<Longrightarrow> leveling g Q \<Longrightarrow> P = Q"
  using leveling_mono [of g P Q] leveling_mono [of g Q P] by auto

lemma kahn_leveling:
  assumes ci: "count_inv g" and k: "kahn rng (init_work g) = Inr wz"
  shows "leveling g (placed g wz)"
proof -
  from linv_kahn [OF ci k] have inv: "kinv g wz" and li: "linv g wz"
    and cz: "current wz = []" and nz: "next_w wz = []" by blast+
  have qz: "queued g wz = {}" by (simp add: queued_def cz nz)
  from inv have ok: "ptrs_ok g wz"
    and K1: "\<And>v. count_of (numInputs_w wz) v = int (card {u. (u, v) \<in> edges_w wz})"
    and K2: "edges_w wz \<subseteq> graph_edges g"
    and K3: "\<And>u v. (u, v) \<in> graph_edges g \<Longrightarrow> ((u, v) \<notin> edges_w wz \<longleftrightarrow> u \<in> snd ` placed g wz)"
    and K5q: "\<And>j y x. (j, y) \<in> placed g wz \<union> queued g wz \<Longrightarrow> (x, y) \<in> graph_edges g
            \<Longrightarrow> \<exists>i<j. (i, x) \<in> placed g wz"
    and K6q: "\<And>i j x. (i, x) \<in> placed g wz \<union> queued g wz \<Longrightarrow> (j, x) \<in> placed g wz \<union> queued g wz \<Longrightarrow> i = j"
    and K7q: "\<And>y. count_of (numInputs_w wz) y = 0 \<Longrightarrow> y \<in> set (nodes g) \<or> (\<exists>x. (x, y) \<in> graph_edges g)
            \<Longrightarrow> y \<in> snd ` (placed g wz \<union> queued g wz)"
    unfolding kinv_def by blast+
  note K5 = K5q [unfolded qz Un_empty_right]
  note K6 = K6q [unfolded qz Un_empty_right]
  note K7 = K7q [unfolded qz Un_empty_right]
  from li have T: "\<And>i q. q \<in> set (lev wz (Suc i))
           \<Longrightarrow> \<exists>x. (x, nodes g ! q) \<in> graph_edges g \<and> (i, x) \<in> placed g wz"
    unfolding linv_def by blast
  have pl: "placed g wz = {(i, nodes g ! q) | i q. q \<in> set (lev wz i)}"
    using lev_placed [of g wz] by (simp add: qz)
  show ?thesis
    unfolding leveling_def
  proof (intro conjI allI impI)
    fix j y x assume "(j, y) \<in> placed g wz" "(x, y) \<in> graph_edges g"
    then show "\<exists>i<j. (i, x) \<in> placed g wz" by (rule K5)
  next
    fix i j x assume "(i, x) \<in> placed g wz" "(j, x) \<in> placed g wz"
    then show "i = j" by (rule K6)
  next
    fix i y assume "(Suc i, y) \<in> placed g wz"
    then obtain q where "q \<in> set (lev wz (Suc i))" "y = nodes g ! q" unfolding pl by blast
    with T [of q i] show "\<exists>x. (x, y) \<in> graph_edges g \<and> (i, x) \<in> placed g wz" by simp
  next
    fix y assume y: "y \<in> set (nodes g)" and a: "\<forall>x. (x, y) \<in> graph_edges g \<longrightarrow> x \<in> snd ` placed g wz"
    have "{u. (u, y) \<in> edges_w wz} = {}" using K2 K3 a by blast
    then have "count_of (numInputs_w wz) y = 0" by (simp add: K1)
    with y show "y \<in> snd ` placed g wz" by (intro K7) simp_all
  next
    show "snd ` placed g wz \<subseteq> set (nodes g)"
    proof
      fix y assume "y \<in> snd ` placed g wz"
      then obtain i q where "i < length (sortedSets wz)" "q \<in> set (sortedSets wz ! i)" "y = nodes g ! q"
        by (auto simp: placed_def)
      moreover from this ok have "q < length (nodes g)"
        unfolding ptrs_ok_def by (metis nth_mem)
      ultimately show "y \<in> set (nodes g)" by simp
    qed
  qed
qed


lemma lev_final:
  "current w = [] \<Longrightarrow> next_w w = [] \<Longrightarrow>
     lev w i = (if i < length (sortedSets w) then sortedSets w ! i else [])"
  by (simp add: lev_def)

lemma placed_level:
  "i < length (sortedSets w) \<Longrightarrow>
     (\<lambda>q. nodes g ! q) ` set (sortedSets w ! i) = {y. (i, y) \<in> placed g w}"
  by (auto simp: placed_def)

lemma placed_levels:
  assumes "[] \<notin> set (sortedSets w)"
  shows "fst ` placed g w = {..<length (sortedSets w)}"
proof
  show "fst ` placed g w \<subseteq> {..<length (sortedSets w)}" by (auto simp: placed_def)
  show "{..<length (sortedSets w)} \<subseteq> fst ` placed g w"
  proof
    fix i assume "i \<in> {..<length (sortedSets w)}"
    then have i: "i < length (sortedSets w)" by simp
    with assms have "sortedSets w ! i \<noteq> []" by (metis nth_mem)
    then obtain q where "q \<in> set (sortedSets w ! i)" by (cases "sortedSets w ! i") auto
    with i have "(i, nodes g ! q) \<in> placed g w" by (auto simp: placed_def)
    then show "i \<in> fst ` placed g w" by force
  qed
qed

lemma topology_keys:
  assumes "ptrs_ok g w"
  shows "map (map NodeId) (topology_of w) = map (map (\<lambda>q. nodes g ! q)) (sortedSets w)"
proof -
  from assms have ids: "map NodeId (infos w) = nodes g"
    and rng_ok: "\<And>q s. s \<in> set (sortedSets w) \<Longrightarrow> q \<in> set s \<Longrightarrow> q < length (nodes g)"
    unfolding ptrs_ok_def by blast+
  have key: "\<And>q s. s \<in> set (sortedSets w) \<Longrightarrow> q \<in> set s \<Longrightarrow> NodeId (infos w ! q) = nodes g ! q"
    using rng_ok ids by (metis length_map nth_map)
  show ?thesis
    unfolding topology_of_def map_map
    by (rule map_cong [OF refl]) (simp add: key)
qed

lemma kahn_levels_same:
  assumes ci: "count_inv g" and k: "kahn rng (init_work g) = Inr wz"
    and k': "kahn rng' (init_work g) = Inr wz'"
  shows "map (\<lambda>l. mset (map (\<lambda>q. nodes g ! q) l)) (sortedSets wz)
       = map (\<lambda>l. mset (map (\<lambda>q. nodes g ! q) l)) (sortedSets wz')"
    and "placed g wz = placed g wz'"
proof -
  from linv_kahn [OF ci k] have inv: "kinv g wz" and li: "linv g wz"
    and cz: "current wz = []" and nz: "next_w wz = []" by blast+
  from linv_kahn [OF ci k'] have inv': "kinv g wz'" and li': "linv g wz'"
    and cz': "current wz' = []" and nz': "next_w wz' = []" by blast+
  show pl: "placed g wz = placed g wz'"
    using kahn_leveling [OF ci k] kahn_leveling [OF ci k'] by (rule leveling_unique)
  from inv inv' have ne: "[] \<notin> set (sortedSets wz)" and ne': "[] \<notin> set (sortedSets wz')"
    by (simp_all add: kinv_def shape_def)
  from placed_levels [OF ne, of g] placed_levels [OF ne', of g] pl
  have len: "length (sortedSets wz) = length (sortedSets wz')" by simp
  from li li' have L0: "lev wz 0 = lev wz' 0"
    and D: "\<And>i. 0 < i \<Longrightarrow> distinct (map (\<lambda>q. nodes g ! q) (lev wz i))"
    and D': "\<And>i. 0 < i \<Longrightarrow> distinct (map (\<lambda>q. nodes g ! q) (lev wz' i))"
    unfolding linv_def by simp_all
  have "mset (map (\<lambda>q. nodes g ! q) (sortedSets wz ! i)) = mset (map (\<lambda>q. nodes g ! q) (sortedSets wz' ! i))"
    if i: "i < length (sortedSets wz)" for i
  proof (cases "i = 0")
    case True
    with L0 i len show ?thesis by (simp add: lev_final cz nz cz' nz')
  next
    case False
    with D [of i] D' [of i] i len
    have "distinct (map (\<lambda>q. nodes g ! q) (sortedSets wz ! i))"
      and "distinct (map (\<lambda>q. nodes g ! q) (sortedSets wz' ! i))"
      by (simp_all add: lev_final cz nz cz' nz')
    moreover have "set (map (\<lambda>q. nodes g ! q) (sortedSets wz ! i)) = set (map (\<lambda>q. nodes g ! q) (sortedSets wz' ! i))"
      using placed_level [of i wz g] placed_level [of i wz' g] i len pl by simp
    ultimately show ?thesis by (simp only: set_eq_iff_mset_eq_distinct)
  qed
  with len show "map (\<lambda>l. mset (map (\<lambda>q. nodes g ! q) l)) (sortedSets wz)
       = map (\<lambda>l. mset (map (\<lambda>q. nodes g ! q) l)) (sortedSets wz')"
    by (simp add: list_eq_iff_nth_eq)
qed


lemma kahn_total:
  assumes ci: "count_inv g" and reg: "snd ` graph_edges g \<subseteq> set (nodes g)"
  shows "\<exists>wz. kahn rng (init_work g) = Inr wz"
proof (cases "kahn rng (init_work g)")
  case (Inr wz)
  then show ?thesis by blast
next
  case (Inl e)
  have "\<exists>w1. kinv g w1 \<and> current w1 \<noteq> [] \<and> step rng w1 = Inl e"
    by (rule kahn_panics [where I = "kinv g", OF Inl kinv_init [OF ci]]) (rule kinv_step)
  then obtain w1 where i1: "kinv g w1" and s1: "step rng w1 = Inl e" by blast
  from step_Inl [OF s1] obtain p rest m where
    m: "m \<in> set (bucket (outputs_w w1) (NodeId (infos w1 ! p)))" and n: "nodes_w w1 m = None"
    by blast
  from i1 have pok: "ptrs_ok g w1" and K2: "edges_w w1 \<subseteq> graph_edges g"
    unfolding kinv_def by blast+
  from m K2 have "(NodeId (infos w1 ! p), m) \<in> graph_edges g" by (auto simp: edges_w_def)
  with reg have "m \<in> set (nodes g)" by force
  with pok n show ?thesis unfolding ptrs_ok_def by blast
qed

lemma resolved_run:
  assumes ci: "count_inv g" and k: "kahn rng (init_work g) = Inr wz"
  shows "\<not> 0 < numUnresolvedEdges wz \<longleftrightarrow> fst ` graph_edges g \<subseteq> snd ` placed g wz"
proof -
  from kinv_kahn [OF ci k] have inv: "kinv g wz" by blast
  then have K1: "\<And>v. count_of (numInputs_w wz) v = int (card {u. (u, v) \<in> edges_w wz})"
    and K2: "edges_w wz \<subseteq> graph_edges g"
    and K3: "\<And>u v. (u, v) \<in> graph_edges g \<Longrightarrow> ((u, v) \<notin> edges_w wz \<longleftrightarrow> u \<in> snd ` placed g wz)"
    unfolding kinv_def by blast+
  show ?thesis
  proof
    assume r: "\<not> 0 < numUnresolvedEdges wz"
    have z: "\<And>v. count_of (numInputs_w wz) v = 0"
      by (rule resolved_counts [OF _ r]) (simp add: K1)
    have "edges_w wz = {}"
    proof (rule ccontr)
      assume "edges_w wz \<noteq> {}"
      then obtain u v where e: "(u, v) \<in> edges_w wz" by auto
      then have "u \<in> {u. (u, v) \<in> edges_w wz}" by simp
      with finite_sources [of v wz] have "card {u. (u, v) \<in> edges_w wz} \<noteq> 0" by auto
      with z [of v] K1 [of v] show False by simp
    qed
    with K3 show "fst ` graph_edges g \<subseteq> snd ` placed g wz" by fastforce
  next
    assume a: "fst ` graph_edges g \<subseteq> snd ` placed g wz"
    have "edges_w wz = {}"
    proof (rule ccontr)
      assume "edges_w wz \<noteq> {}"
      then obtain u v where e: "(u, v) \<in> edges_w wz" by auto
      with K2 have g: "(u, v) \<in> graph_edges g" by blast
      with a have "u \<in> snd ` placed g wz" by force
      with K3 [OF g] e show False by blast
    qed
    then have "\<And>v. count_of (numInputs_w wz) v = 0" by (simp add: K1)
    then have "count_of (numInputs_w wz) = (\<lambda>v. 0)" by (intro ext)
    then have "numUnresolvedEdges wz = 0" by (simp add: numUnresolvedEdges_def)
    then show "\<not> 0 < numUnresolvedEdges wz" by simp
  qed
qed

lemma resolved_targets:
  assumes ci: "count_inv g" and k: "kahn rng (init_work g) = Inr wz"
    and r: "\<not> 0 < numUnresolvedEdges wz"
  shows "snd ` graph_edges g \<subseteq> set (nodes g)"
proof
  fix v assume "v \<in> snd ` graph_edges g"
  then obtain u where e: "(u, v) \<in> graph_edges g" by force
  from kinv_kahn [OF ci k] have inv: "kinv g wz" and cz: "current wz = []" by blast+
  then have nz: "next_w wz = []" by (simp add: kinv_def shape_def)
  from inv have K1: "\<And>v. count_of (numInputs_w wz) v = int (card {u. (u, v) \<in> edges_w wz})"
    and K7: "\<And>y. count_of (numInputs_w wz) y = 0 \<Longrightarrow> y \<in> set (nodes g) \<or> (\<exists>x. (x, y) \<in> graph_edges g)
            \<Longrightarrow> y \<in> snd ` (placed g wz \<union> queued g wz)"
    unfolding kinv_def by blast+
  have "count_of (numInputs_w wz) v = 0"
    by (rule resolved_counts [OF _ r]) (simp add: K1)
  from K7 [OF this] e have "v \<in> snd ` placed g wz" by (auto simp: queued_def cz nz)
  with levelingD(5) [OF kahn_leveling [OF ci k]] show "v \<in> set (nodes g)" by blast
qed

lemma second_run:
  assumes ci: "count_inv g" and k: "kahn rng (init_work g) = Inr wz"
    and r: "\<not> 0 < numUnresolvedEdges wz"
  shows "\<exists>wz'. kahn rng' (init_work g) = Inr wz' \<and> \<not> 0 < numUnresolvedEdges wz'"
proof -
  from kahn_total [OF ci resolved_targets [OF ci k r], of rng']
  obtain wz' where k': "kahn rng' (init_work g) = Inr wz'" by blast
  from kahn_levels_same(2) [OF ci k k'] have "placed g wz = placed g wz'" .
  with resolved_run [OF ci k] resolved_run [OF ci k'] r have "\<not> 0 < numUnresolvedEdges wz'" by simp
  with k' show ?thesis by blast
qed

subsection \<open>The scope of a sort, seen through the keys\<close>

definition inc :: "'k DAG \<Rightarrow> bool \<Rightarrow> bool \<Rightarrow> 'k set \<Rightarrow> 'k \<Rightarrow> bool" where
  \<comment> \<open>the node with key \<open>k\<close> is kept when the selection is \<open>S\<close>\<close>
  "inc g wd wod S k \<longleftrightarrow>
     k \<in> S \<or> (\<not> wod \<and> wd \<and> (\<exists>t\<in>S. t \<in> set (bucket (outputs g) k)))"

definition bad :: "'k DAG \<Rightarrow> bool \<Rightarrow> bool \<Rightarrow> 'k set \<Rightarrow> 'k \<Rightarrow> bool" where
  \<comment> \<open>the node with key \<open>k\<close> stops the sort when the selection is \<open>S\<close>\<close>
  "bad g wd wod S k \<longleftrightarrow>
     k \<notin> S \<and> \<not> wod \<and> \<not> wd \<and> (\<exists>t\<in>S. t \<in> set (bucket (outputs g) k))"

lemma include_node_sem:
  "include_node g wd wod node (Some sel, acc) =
     (if bad g wd wod (set sel) (NodeId node)
      then Inl (UnhandledDependencyError
             [(NodeId node, sort (filter (\<lambda>t. t \<in> set (bucket (outputs g) (NodeId node))) sel))])
      else if inc g wd wod (set sel) (NodeId node)
      then Inr (Some (if NodeId node \<in> set sel then sel else List.insert (NodeId node) sel),
                acc @ [node])
      else Inr (Some sel, acc))"
  by (auto simp: include_node_def Let_def inc_def bad_def filter_empty_conv)

lemma scan_level_gen:
  assumes ne: "\<forall>a\<in>set v. \<forall>b\<in>set v. NodeId b \<notin> set (bucket (outputs g) (NodeId a))"
    and sub: "S0 \<subseteq> set sel"
    and ins: "\<forall>k\<in>set sel - S0. inc g wd wod S0 k
                \<and> (\<forall>a\<in>set v. k \<notin> set (bucket (outputs g) (NodeId a)))"
  shows "((\<exists>n\<in>set v. bad g wd wod S0 (NodeId n)) \<longrightarrow> (\<exists>e. scan_level g wd wod v (Some sel, acc) = Inl e))
       \<and> (\<not> (\<exists>n\<in>set v. bad g wd wod S0 (NodeId n)) \<longrightarrow>
            (\<exists>sel'. scan_level g wd wod v (Some sel, acc)
                       = Inr (Some sel', acc @ filter (\<lambda>n. inc g wd wod S0 (NodeId n)) v)
                   \<and> set sel' = set sel \<union> NodeId ` {n \<in> set v. inc g wd wod S0 (NodeId n)}))"
  using assms
proof (induction v arbitrary: sel acc)
  case Nil
  then show ?case by simp
next
  case (Cons n v)
  define k where "k = NodeId n"
  from Cons.prems(3) have ins_inc: "\<And>k'. k' \<in> set sel \<Longrightarrow> k' \<notin> S0 \<Longrightarrow> inc g wd wod S0 k'"
    and ins_ne: "\<And>k' a. k' \<in> set sel \<Longrightarrow> k' \<notin> S0 \<Longrightarrow> a \<in> set (n # v)
                   \<Longrightarrow> k' \<notin> set (bucket (outputs g) (NodeId a))"
    by blast+
  have grow: "\<not> wd \<or> wod \<Longrightarrow> set sel = S0"
  proof -
    assume f: "\<not> wd \<or> wod"
    have "set sel \<subseteq> S0"
    proof
      fix k' assume k': "k' \<in> set sel"
      show "k' \<in> S0"
      proof (rule ccontr)
        assume "k' \<notin> S0"
        with ins_inc [OF k'] f show False by (auto simp: inc_def)
      qed
    qed
    with Cons.prems(2) show ?thesis by blast
  qed
  have inc_eq: "inc g wd wod (set sel) k \<longleftrightarrow> inc g wd wod S0 k"
  proof
    assume "inc g wd wod S0 k"
    with Cons.prems(2) show "inc g wd wod (set sel) k" by (auto simp: inc_def)
  next
    assume a: "inc g wd wod (set sel) k"
    show "inc g wd wod S0 k"
    proof (cases "k \<in> set sel")
      case True
      show ?thesis
      proof (cases "k \<in> S0")
        case True
        then show ?thesis by (simp add: inc_def)
      next
        case False
        with \<open>k \<in> set sel\<close> show ?thesis by (rule ins_inc)
      qed
    next
      case False
      with a obtain t where f: "\<not> wod" "wd" and t: "t \<in> set sel" "t \<in> set (bucket (outputs g) k)"
        by (auto simp: inc_def)
      from ins_ne [of t n] t have "t \<in> S0" by (auto simp: k_def)
      with f t show ?thesis by (auto simp: inc_def)
    qed
  qed
  have bad_eq: "bad g wd wod (set sel) k \<longleftrightarrow> bad g wd wod S0 k"
  proof (cases "\<not> wd \<or> wod")
    case True
    from grow [OF this] show ?thesis by simp
  next
    case False
    then show ?thesis by (simp add: bad_def)
  qed
  show ?case
  proof (cases "bad g wd wod S0 k")
    case True
    with bad_eq have b: "bad g wd wod (set sel) (NodeId n)" by (simp add: k_def)
    have "\<exists>e. scan_level g wd wod (n # v) (Some sel, acc) = Inl e"
      by (simp add: include_node_sem b)
    moreover have "\<exists>m\<in>set (n # v). bad g wd wod S0 (NodeId m)"
      using True by (simp add: k_def)
    ultimately show ?thesis by blast
  next
    case nb: False
    define sel1 where "sel1 = (if inc g wd wod S0 k
                               then (if k \<in> set sel then sel else List.insert k sel) else sel)"
    define acc1 where "acc1 = (if inc g wd wod S0 k then acc @ [n] else acc)"
    have step: "include_node g wd wod n (Some sel, acc) = Inr (Some sel1, acc1)"
      using nb by (simp add: include_node_sem bad_eq inc_eq k_def [symmetric] sel1_def acc1_def)
    have s1: "set sel1 = set sel \<union> (if inc g wd wod S0 k then {k} else {})"
      by (auto simp: sel1_def)
    have ne': "\<forall>a\<in>set v. \<forall>b\<in>set v. NodeId b \<notin> set (bucket (outputs g) (NodeId a))"
      using Cons.prems(1) by simp
    have sub': "S0 \<subseteq> set sel1" using Cons.prems(2) by (auto simp: s1)
    have ins': "\<forall>k'\<in>set sel1 - S0. inc g wd wod S0 k'
                \<and> (\<forall>a\<in>set v. k' \<notin> set (bucket (outputs g) (NodeId a)))"
    proof
      fix k' assume k': "k' \<in> set sel1 - S0"
      show "inc g wd wod S0 k' \<and> (\<forall>a\<in>set v. k' \<notin> set (bucket (outputs g) (NodeId a)))"
      proof (cases "k' \<in> set sel")
        case True
        with k' ins_inc [of k'] ins_ne [of k'] show ?thesis by auto
      next
        case False
        with k' have e: "k' = k" and i: "inc g wd wod S0 k" by (auto simp: s1 split: if_splits)
        from Cons.prems(1) have "\<forall>a\<in>set v. k \<notin> set (bucket (outputs g) (NodeId a))"
          by (simp add: k_def)
        with e i show ?thesis by simp
      qed
    qed
    note IH = Cons.IH [OF ne' sub' ins', of acc1]
    have bn: "(\<exists>m\<in>set (n # v). bad g wd wod S0 (NodeId m)) \<longleftrightarrow> (\<exists>m\<in>set v. bad g wd wod S0 (NodeId m))"
      using nb by (simp add: k_def)
    show ?thesis
    proof (cases "\<exists>m\<in>set v. bad g wd wod S0 (NodeId m)")
      case True
      with IH obtain e where "scan_level g wd wod v (Some sel1, acc1) = Inl e" by blast
      with True show ?thesis unfolding bn by (simp add: step)
    next
      case False
      with IH obtain sel' where r: "scan_level g wd wod v (Some sel1, acc1)
                       = Inr (Some sel', acc1 @ filter (\<lambda>n. inc g wd wod S0 (NodeId n)) v)"
        and s': "set sel' = set sel1 \<union> NodeId ` {n \<in> set v. inc g wd wod S0 (NodeId n)}"
        by blast
      have "scan_level g wd wod (n # v) (Some sel, acc)
           = Inr (Some sel', acc @ filter (\<lambda>n. inc g wd wod S0 (NodeId n)) (n # v))"
        using r by (auto simp: step acc1_def k_def)
      moreover have "set sel' = set sel \<union> NodeId ` {m \<in> set (n # v). inc g wd wod S0 (NodeId m)}"
        unfolding s' s1 by (auto simp: k_def)
      ultimately show ?thesis using False unfolding bn by blast
    qed
  qed
qed

lemma scan_level_sem:
  assumes ne: "\<forall>a\<in>set v. \<forall>b\<in>set v. NodeId b \<notin> set (bucket (outputs g) (NodeId a))"
  shows "((\<exists>n\<in>set v. bad g wd wod (set sel) (NodeId n)) \<longrightarrow> (\<exists>e. scan_level g wd wod v (Some sel, acc) = Inl e))
       \<and> (\<not> (\<exists>n\<in>set v. bad g wd wod (set sel) (NodeId n)) \<longrightarrow>
            (\<exists>sel'. scan_level g wd wod v (Some sel, acc)
                       = Inr (Some sel', acc @ filter (\<lambda>n. inc g wd wod (set sel) (NodeId n)) v)
                   \<and> set sel' = set sel \<union> NodeId ` {n \<in> set v. inc g wd wod (set sel) (NodeId n)}))"
  by (rule scan_level_gen [OF ne]) simp_all


definition level_keys :: "'k NodeInfo list \<Rightarrow> 'k multiset" where
  \<comment> \<open>the keys of a level, with their multiplicities: all that the rendering shows of it\<close>
  "level_keys l = mset (map NodeId l)"

lemma level_keys_filter:
  "level_keys (filter (\<lambda>n. Q (NodeId n)) v) = filter_mset Q (level_keys v)"
  by (induction v) (auto simp: level_keys_def)

lemma level_keys_sort: "level_keys (sort_key NodeId v) = level_keys v"
  by (simp add: level_keys_def)

lemma level_keys_Nil: "level_keys l = {#} \<longleftrightarrow> l = []"
  by (simp add: level_keys_def)

lemma level_keys_set: "level_keys v = level_keys v' \<Longrightarrow> NodeId ` set v = NodeId ` set v'"
  unfolding level_keys_def by (metis set_map set_mset_mset)

lemma filter_nonempty_keys:
  "map level_keys (filter (\<lambda>ns. ns \<noteq> []) xs) = filter (\<lambda>m. m \<noteq> {#}) (map level_keys xs)"
  by (induction xs) (auto simp: level_keys_Nil)

lemma scope_levels_same:
  assumes "map level_keys vs = map level_keys vs'"
    and "\<forall>v\<in>set vs. \<forall>a\<in>set v. \<forall>b\<in>set v. NodeId b \<notin> set (bucket (outputs g) (NodeId a))"
    and "set sel = set sel'"
    and "map level_keys r = map level_keys r'"
    and "scope_levels g wd wod vs (Some sel) r = Inr res"
  shows "\<exists>res'. scope_levels g wd wod vs' (Some sel') r' = Inr res'
           \<and> map level_keys res = map level_keys res'"
  using assms
proof (induction vs arbitrary: vs' sel sel' r r' res)
  case Nil
  then show ?case by simp
next
  case (Cons v vs)
  from Cons.prems(1) obtain v' vs'' where vs': "vs' = v' # vs''"
    and kv: "level_keys v = level_keys v'" and rest: "map level_keys vs = map level_keys vs''"
    by (cases vs') auto
  note ks = level_keys_set [OF kv]
  have ne: "\<forall>a\<in>set v. \<forall>b\<in>set v. NodeId b \<notin> set (bucket (outputs g) (NodeId a))"
    using Cons.prems(2) by simp
  have ne': "\<forall>a\<in>set v'. \<forall>b\<in>set v'. NodeId b \<notin> set (bucket (outputs g) (NodeId a))"
  proof (intro ballI)
    fix a b assume "a \<in> set v'" "b \<in> set v'"
    with ks obtain a0 b0 where "a0 \<in> set v" "NodeId a0 = NodeId a" "b0 \<in> set v" "NodeId b0 = NodeId b"
      by (metis (no_types, lifting) image_iff)
    with ne show "NodeId b \<notin> set (bucket (outputs g) (NodeId a))" by metis
  qed
  define S where "S = set sel"
  have S': "set sel' = S" using Cons.prems(3) by (simp add: S_def)
  have nb: "\<not> (\<exists>n\<in>set v. bad g wd wod S (NodeId n))"
  proof
    assume "\<exists>n\<in>set v. bad g wd wod S (NodeId n)"
    with scan_level_sem [OF ne, of wd wod sel "[]"] obtain e where
      "scan_level g wd wod v (Some sel, []) = Inl e" unfolding S_def by blast
    with Cons.prems(5) show False by simp
  qed
  have nb': "\<not> (\<exists>n\<in>set v'. bad g wd wod S (NodeId n))"
  proof
    assume "\<exists>n\<in>set v'. bad g wd wod S (NodeId n)"
    then obtain n where "n \<in> set v'" "bad g wd wod S (NodeId n)" by blast
    with ks obtain n0 where "n0 \<in> set v" "NodeId n0 = NodeId n" by (metis (no_types, lifting) image_iff)
    with \<open>bad g wd wod S (NodeId n)\<close> nb show False by metis
  qed
  from scan_level_sem [OF ne, of wd wod sel "[]"] nb obtain sel1 where
    sc: "scan_level g wd wod v (Some sel, []) = Inr (Some sel1, filter (\<lambda>n. inc g wd wod S (NodeId n)) v)"
    and s1: "set sel1 = S \<union> NodeId ` {n \<in> set v. inc g wd wod S (NodeId n)}"
    unfolding S_def by auto
  from scan_level_sem [OF ne', of wd wod sel' "[]"] nb' obtain sel1' where
    sc': "scan_level g wd wod v' (Some sel', []) = Inr (Some sel1', filter (\<lambda>n. inc g wd wod S (NodeId n)) v')"
    and s1': "set sel1' = S \<union> NodeId ` {n \<in> set v'. inc g wd wod S (NodeId n)}"
    unfolding S' by auto
  have "NodeId ` {n \<in> set v. inc g wd wod S (NodeId n)} = {k \<in> NodeId ` set v. inc g wd wod S k}"
    by auto
  moreover have "NodeId ` {n \<in> set v'. inc g wd wod S (NodeId n)} = {k \<in> NodeId ` set v'. inc g wd wod S k}"
    by auto
  ultimately have sets: "set sel1 = set sel1'" using ks by (simp add: s1 s1')
  define e where "e = (let included = filter (\<lambda>n. inc g wd wod S (NodeId n)) v
                       in if included = [] then [] else sort_key NodeId included)"
  define e' where "e' = (let included = filter (\<lambda>n. inc g wd wod S (NodeId n)) v'
                       in if included = [] then [] else sort_key NodeId included)"
  have "level_keys e = filter_mset (inc g wd wod S) (level_keys v)"
    by (simp add: e_def Let_def level_keys_sort level_keys_filter [symmetric] level_keys_Nil)
  moreover have "level_keys e' = filter_mset (inc g wd wod S) (level_keys v')"
    by (simp add: e'_def Let_def level_keys_sort level_keys_filter [symmetric] level_keys_Nil)
  ultimately have ke: "map level_keys (e # r) = map level_keys (e' # r')"
    using kv Cons.prems(4) by simp
  from Cons.prems(5) have run: "scope_levels g wd wod vs (Some sel1) (e # r) = Inr res"
    by (simp add: sc e_def Let_def)
  have ne_rest: "\<forall>v\<in>set vs. \<forall>a\<in>set v. \<forall>b\<in>set v. NodeId b \<notin> set (bucket (outputs g) (NodeId a))"
    using Cons.prems(2) by simp
  from Cons.IH [OF rest ne_rest sets ke run] obtain res' where
    "scope_levels g wd wod vs'' (Some sel1') (e' # r') = Inr res'"
    and "map level_keys res = map level_keys res'" by blast
  then show ?case by (simp add: vs' sc' e'_def Let_def)
qed

lemma resolve_scope_same:
  assumes rel: "map level_keys levels = map level_keys levels'"
    and ne: "\<forall>v\<in>set levels. \<forall>a\<in>set v. \<forall>b\<in>set v. NodeId b \<notin> set (bucket (outputs g) (NodeId a))"
    and ok: "resolve_scope g options only levels = Returns (Some t) None"
  shows "\<exists>t'. resolve_scope g options only levels' = Returns (Some t') None
           \<and> map level_keys t = map level_keys t'"
proof (cases only)
  case None
  have k: "\<And>ls. map level_keys (map (\<lambda>v. if v = [] then [] else sort_key NodeId v) ls) = map level_keys ls"
    by (simp add: level_keys_sort)
  from ok have "t = filter (\<lambda>ns. ns \<noteq> []) (map (\<lambda>v. if v = [] then [] else sort_key NodeId v) levels)"
    by (simp add: None resolve_scope_unscoped)
  then have "map level_keys t = filter (\<lambda>m. m \<noteq> {#}) (map level_keys levels)"
    by (simp only: filter_nonempty_keys k)
  moreover have "map level_keys (filter (\<lambda>ns. ns \<noteq> []) (map (\<lambda>v. if v = [] then [] else sort_key NodeId v) levels'))
      = filter (\<lambda>m. m \<noteq> {#}) (map level_keys levels')"
    by (simp only: filter_nonempty_keys k)
  ultimately show ?thesis using rel by (simp add: None resolve_scope_unscoped)
next
  case (Some sel)
  from ok obtain r where run: "scope_levels g (so_WithDependencies options) (so_WithoutDependencies options)
             (rev levels) (Some sel) [] = Inr r" and t: "t = filter (\<lambda>ns. ns \<noteq> []) r"
    by (auto simp: Some resolve_scope_def split: sum.splits)
  have rel': "map level_keys (rev levels) = map level_keys (rev levels')"
    using rel by (metis rev_map)
  have ne': "\<forall>v\<in>set (rev levels). \<forall>a\<in>set v. \<forall>b\<in>set v. NodeId b \<notin> set (bucket (outputs g) (NodeId a))"
    using ne by simp
  from scope_levels_same [OF rel' ne' refl refl run] obtain r' where
    run': "scope_levels g (so_WithDependencies options) (so_WithoutDependencies options)
             (rev levels') (Some sel) [] = Inr r'" and kr: "map level_keys r = map level_keys r'"
    by blast
  have "map level_keys t = map level_keys (filter (\<lambda>ns. ns \<noteq> []) r')"
    by (simp only: t filter_nonempty_keys kr)
  with run' show ?thesis by (simp add: Some resolve_scope_def)
qed

lemma Topology_String_keys:
  assumes "map level_keys t = map level_keys t'"
  shows "Topology_String shw (Some t) = Topology_String shw (Some t')"
proof -
  have s: "\<And>l. sort (map NodeId l) = sorted_list_of_multiset (level_keys l)"
    unfolding level_keys_def by (rule sorted_list_of_multiset_mset [symmetric])
  have "map (\<lambda>set. join '', '' (map shw (sort (map NodeId set)))) t
      = map (\<lambda>m. join '', '' (map shw (sorted_list_of_multiset m))) (map level_keys t)"
    by (simp add: s)
  also have "\<dots> = map (\<lambda>set. join '', '' (map shw (sort (map NodeId set)))) t'"
    by (simp add: s assms)
  finally have m: "map (\<lambda>set. join '', '' (map shw (sort (map NodeId set)))) t
      = map (\<lambda>set. join '', '' (map shw (sort (map NodeId set)))) t'" .
  from assms have "t = [] \<longleftrightarrow> t' = []" by (metis map_is_Nil_conv)
  with m show ?thesis by (simp add: Topology_String_def)
qed

subsection \<open>The same string for every order\<close>

lemma topology_level_keys:
  assumes "ptrs_ok g w"
  shows "map level_keys (topology_of w)
       = map (\<lambda>l. mset (map (\<lambda>q. nodes g ! q) l)) (sortedSets w)"
proof -
  have "map level_keys (topology_of w) = map mset (map (map NodeId) (topology_of w))"
    by (simp add: level_keys_def comp_def)
  also have "\<dots> = map mset (map (map (\<lambda>q. nodes g ! q)) (sortedSets w))"
    by (simp only: topology_keys [OF assms])
  finally show ?thesis by (simp add: comp_def)
qed

lemma no_edge_in_level:
  assumes ci: "count_inv g" and k: "kahn rng (init_work g) = Inr wz"
  shows "\<forall>v\<in>set (topology_of wz). \<forall>a\<in>set v. \<forall>b\<in>set v.
           NodeId b \<notin> set (bucket (outputs g) (NodeId a))"
proof (intro ballI notI)
  fix v a b assume v: "v \<in> set (topology_of wz)" and a: "a \<in> set v" and b: "b \<in> set v"
    and e: "NodeId b \<in> set (bucket (outputs g) (NodeId a))"
  from kahn_ptrs_ok [OF k] have pok: "ptrs_ok g wz" by blast
  from v obtain i where i: "i < length (topology_of wz)" and vi: "v = topology_of wz ! i"
    by (auto simp: in_set_conv_nth)
  from i have il: "i < length (sortedSets wz)" by (simp add: topology_of_def)
  from topology_keys [OF pok] i il have "map NodeId v = map (\<lambda>q. nodes g ! q) (sortedSets wz ! i)"
    unfolding vi by (metis length_map nth_map)
  then have "NodeId ` set v = (\<lambda>q. nodes g ! q) ` set (sortedSets wz ! i)"
    by (metis set_map)
  with placed_level [OF il, of g] have "NodeId ` set v = {y. (i, y) \<in> placed g wz}" by simp
  with a b have pa: "(i, NodeId a) \<in> placed g wz" and pb: "(i, NodeId b) \<in> placed g wz" by blast+
  note lv = kahn_leveling [OF ci k]
  from e have "(NodeId a, NodeId b) \<in> graph_edges g" by (simp add: graph_edges_def)
  from levelingD(1) [OF lv pb this] obtain i' where "i' < i" "(i', NodeId a) \<in> placed g wz" by blast
  with levelingD(2) [OF lv pa] show False by blast
qed

text \<open>
  Repeating a sort on a store with consistent counts. Let the stored count of every key be
  the number of edges of the store that point to it. If \<open>Sort\<close> succeeds for one order of
  \<open>range\<close>, it succeeds for every order, with the same options, and the Topology has the
  same string: the levels hold the same keys, only the order inside \<open>ParentIds\<close> and
  \<open>ChildIds\<close> can differ.
\<close>

theorem Sort_repeatable:
  assumes ci: "count_inv g" and ok: "Sort rng g opts = Returns (Some t) None"
  shows "\<exists>t'. Sort rng' g opts = Returns (Some t') None
           \<and> Topology_String shw (Some t') = Topology_String shw (Some t)"
proof -
  have fu: "first_undefined rng g = None"
    using ok by (cases "first_undefined rng g") (simp_all add: Sort_unfold)
  then have fu': "first_undefined rng' g = None" by (simp add: first_undefined_None)
  from ok fu have "level_and_scope rng g (sort_options opts) (init_work g) = Returns (Some t) None"
    by (simp add: Sort_unfold)
  then obtain wz where k: "kahn rng (init_work g) = Inr wz" and u: "\<not> 0 < numUnresolvedEdges wz"
    and rs: "resolve_scope g (sort_options opts) (only_of (sort_options opts)) (topology_of wz)
               = Returns (Some t) None"
    by (auto simp: level_and_scope_def split: sum.splits if_splits)
  from second_run [OF ci k u, of rng'] obtain wz' where k': "kahn rng' (init_work g) = Inr wz'"
    and u': "\<not> 0 < numUnresolvedEdges wz'" by blast
  from kahn_ptrs_ok [OF k] kahn_ptrs_ok [OF k'] have pok: "ptrs_ok g wz" "ptrs_ok g wz'" by blast+
  have rel: "map level_keys (topology_of wz) = map level_keys (topology_of wz')"
    by (simp only: topology_level_keys [OF pok(1)] topology_level_keys [OF pok(2)]
          kahn_levels_same(1) [OF ci k k'])
  from resolve_scope_same [OF rel no_edge_in_level [OF ci k] rs] obtain t' where
    rs': "resolve_scope g (sort_options opts) (only_of (sort_options opts)) (topology_of wz')
               = Returns (Some t') None"
    and kt: "map level_keys t = map level_keys t'" by blast
  have "Sort rng' g opts = Returns (Some t') None"
    using fu' k' u' rs' by (simp add: Sort_unfold level_and_scope_def)
  moreover from Topology_String_keys [OF kt, of shw]
  have "Topology_String shw (Some t') = Topology_String shw (Some t)" by simp
  ultimately show ?thesis by blast
qed

theorem Sort_repeatable_witness:
  "count_inv scenario1
   \<and> Sort list_order scenario1 [Only [''api''], WithDependencies]
       = Returns (Some
           [[\<lparr>NodeId = ''cache'', ParentIds = [], ChildIds = [''api'', ''web'']\<rparr>,
             \<lparr>NodeId = ''net'', ParentIds = [], ChildIds = [''mesh'', ''db'', ''api'', ''web'']\<rparr>],
            [\<lparr>NodeId = ''db'', ParentIds = [''net''], ChildIds = [''api'']\<rparr>],
            [\<lparr>NodeId = ''api'', ParentIds = [''cache'', ''net'', ''db''], ChildIds = [''web'']\<rparr>]]) None
   \<and> (\<exists>t'. Sort reverse_order scenario1 [Only [''api''], WithDependencies] = Returns (Some t') None
          \<and> Topology_String id (Some t') = ''cache, net -> db -> api'')"
proof -
  have a: "count_inv scenario1" by (rule count_invI) code_simp
  have b: "Sort list_order scenario1 [Only [''api''], WithDependencies]
       = Returns (Some
           [[\<lparr>NodeId = ''cache'', ParentIds = [], ChildIds = [''api'', ''web'']\<rparr>,
             \<lparr>NodeId = ''net'', ParentIds = [], ChildIds = [''mesh'', ''db'', ''api'', ''web'']\<rparr>],
            [\<lparr>NodeId = ''db'', ParentIds = [''net''], ChildIds = [''api'']\<rparr>],
            [\<lparr>NodeId = ''api'', ParentIds = [''cache'', ''net'', ''db''], ChildIds = [''web'']\<rparr>]]) None"
    by code_simp
  have c: "Topology_String id (Some
           [[\<lparr>NodeId = ''cache'', ParentIds = [], ChildIds = [''api'', ''web'']\<rparr>,
             \<lparr>NodeId = ''net'', ParentIds = [], ChildIds = [''mesh'', ''db'', ''api'', ''web'']\<rparr>],
            [\<lparr>NodeId = ''db'', ParentIds = [''net''], ChildIds = [''api'']\<rparr>],
            [\<lparr>NodeId = ''api'', ParentIds = [''cache'', ''net'', ''db''], ChildIds = [''web'']\<rparr>]])
       = ''cache, net -> db -> api''"
    by code_simp
  from Sort_repeatable [OF a b, of reverse_order id]
  have "\<exists>t'. Sort reverse_order scenario1 [Only [''api''], WithDependencies] = Returns (Some t') None
          \<and> Topology_String id (Some t') = ''cache, net -> db -> api''"
    unfolding c .
  with a b show ?thesis by (intro conjI)
qed

subsection \<open>A stale count\<close>

text \<open>
  C9. The claim: \<open>Sort\<close> leaves the graph as it is, and so two calls of \<open>Sort\<close> with the same
  options on an unmodified graph give the same Topology string. \<open>Sort\<close> does work on copies
  of \<open>numInputs\<close> and \<open>outputs\<close>, but what it returns depends on the order in which \<open>range\<close>
  visits \<open>outputs[n.Id]\<close>, which Go leaves open and changes from one call to the next. On
  the store with the edges \<open>r \<rightarrow> x\<close>, \<open>r \<rightarrow> y\<close>, \<open>y \<rightarrow> x\<close>, \<open>x \<rightarrow> z\<close> on which \<open>RemoveEdge(x, x)\<close>
  has decremented the count of \<open>x\<close> to 1 (two edges point to \<open>x\<close>), \<open>x\<close> and its dependency
  \<open>y\<close> reach the count zero in the same round and share a level, in the order in which
  \<open>outputs[r]\<close> is ranged over. With \<open>Only(z)\<close> and \<open>WithDependencies\<close> the scope keeps \<open>y\<close>
  only if it comes after \<open>x\<close> in that level: one order gives \<open>r -> x -> z\<close>, the other
  \<open>r -> x, y -> z\<close>.
\<close>

theorem Sort_depends_on_range_order:
  "edges stale_count_graph = [(''r'', ''y''), (''r'', ''x''), (''x'', ''z''), (''y'', ''x'')]
   \<and> count_of (numInputs stale_count_graph) ''x'' = 1
   \<and> indegree stale_count_graph ''x'' = 2
   \<and> Sort list_order stale_count_graph [Only [''z''], WithDependencies]
       = Returns (Some [[\<lparr>NodeId = ''r'', ParentIds = [], ChildIds = [''y'', ''x'']\<rparr>],
                        [\<lparr>NodeId = ''x'', ParentIds = [''r'', ''y''], ChildIds = [''z'']\<rparr>],
                        [\<lparr>NodeId = ''z'', ParentIds = [''x''], ChildIds = []\<rparr>]]) None
   \<and> Sort reverse_order stale_count_graph [Only [''z''], WithDependencies]
       = Returns (Some [[\<lparr>NodeId = ''r'', ParentIds = [], ChildIds = [''x'', ''y'']\<rparr>],
                        [\<lparr>NodeId = ''x'', ParentIds = [''r'', ''y''], ChildIds = [''z'']\<rparr>,
                         \<lparr>NodeId = ''y'', ParentIds = [''r''], ChildIds = [''x'']\<rparr>],
                        [\<lparr>NodeId = ''z'', ParentIds = [''x''], ChildIds = []\<rparr>]]) None
   \<and> Topology_String id
        (Some [[\<lparr>NodeId = ''r'', ParentIds = [], ChildIds = [''y'', ''x'']\<rparr>],
               [\<lparr>NodeId = ''x'', ParentIds = [''r'', ''y''], ChildIds = [''z'']\<rparr>],
               [\<lparr>NodeId = ''z'', ParentIds = [''x''], ChildIds = []\<rparr>]]) = ''r -> x -> z''
   \<and> Topology_String id
        (Some [[\<lparr>NodeId = ''r'', ParentIds = [], ChildIds = [''x'', ''y'']\<rparr>],
               [\<lparr>NodeId = ''x'', ParentIds = [''r'', ''y''], ChildIds = [''z'']\<rparr>,
                \<lparr>NodeId = ''y'', ParentIds = [''r''], ChildIds = [''x'']\<rparr>],
               [\<lparr>NodeId = ''z'', ParentIds = [''x''], ChildIds = []\<rparr>]]) = ''r -> x, y -> z''"
  by code_simp

end
